theory Spec2Isabelle
  imports Main
begin

section \<open>JavaScript strings\<close>

text \<open>
  A JavaScript string is a sequence of UTF-16 code units. A code unit is modelled as a
  natural number and a string as a list of them, so that the em dash of the source's
  literals (U+2014) and the Unicode white space of \<open>\s\<close> and \<open>trim\<close> can be written.
  \<open>js\<close> turns an ASCII literal into such a string.
\<close>

type_synonym code_unit = nat
type_synonym jsstring = "code_unit list"

definition js :: "string \<Rightarrow> jsstring" where
  "js s = map of_char s"

subsection \<open>Character classes of the two patterns\<close>

definition is_digit :: "code_unit \<Rightarrow> bool" where
  \<comment> \<open>\<open>\d\<close> and \<open>0-9\<close>\<close>
  "is_digit c = (48 \<le> c \<and> c \<le> 57)"

definition is_alpha :: "code_unit \<Rightarrow> bool" where
  \<comment> \<open>\<open>[A-Z]\<close> under the \<open>i\<close> flag (no \<open>u\<close> flag): the ASCII letters of both cases\<close>
  "is_alpha c = ((65 \<le> c \<and> c \<le> 90) \<or> (97 \<le> c \<and> c \<le> 122))"

definition is_word :: "code_unit \<Rightarrow> bool" where
  \<comment> \<open>the word characters that \<open>\b\<close> looks at: \<open>[A-Za-z0-9_]\<close>\<close>
  "is_word c = (is_alpha c \<or> is_digit c \<or> c = 95)"

definition is_space :: "code_unit \<Rightarrow> bool" where
  \<comment> \<open>\<open>\s\<close>, and what \<open>trim\<close> strips: WhiteSpace and LineTerminator of ECMAScript\<close>
  "is_space c = ((9 \<le> c \<and> c \<le> 13) \<or> c = 32 \<or> c = 160 \<or> c = 5760 \<or> (8192 \<le> c \<and> c \<le> 8202)
                 \<or> c = 8232 \<or> c = 8233 \<or> c = 8239 \<or> c = 8287 \<or> c = 12288 \<or> c = 65279)"

definition is_local :: "code_unit \<Rightarrow> bool" where
  \<comment> \<open>\<open>[A-Z0-9._%+-]\<close> under the \<open>i\<close> flag\<close>
  "is_local c = (is_alpha c \<or> is_digit c \<or> c = 46 \<or> c = 95 \<or> c = 37 \<or> c = 43 \<or> c = 45)"

definition is_domain :: "code_unit \<Rightarrow> bool" where
  \<comment> \<open>\<open>[A-Z0-9.-]\<close> under the \<open>i\<close> flag\<close>
  "is_domain c = (is_alpha c \<or> is_digit c \<or> c = 46 \<or> c = 45)"

definition is_at :: "code_unit \<Rightarrow> bool" where
  "is_at c = (c = 64)"

definition is_dot :: "code_unit \<Rightarrow> bool" where
  "is_dot c = (c = 46)"

definition is_plus :: "code_unit \<Rightarrow> bool" where
  "is_plus c = (c = 43)"

definition is_lparen :: "code_unit \<Rightarrow> bool" where
  "is_lparen c = (c = 40)"

definition is_rparen :: "code_unit \<Rightarrow> bool" where
  "is_rparen c = (c = 41)"

definition is_sep :: "code_unit \<Rightarrow> bool" where
  \<comment> \<open>\<open>[-.\s]\<close>\<close>
  "is_sep c = (c = 45 \<or> c = 46 \<or> is_space c)"

definition is_dsep :: "code_unit \<Rightarrow> bool" where
  \<comment> \<open>\<open>[\d-.\s]\<close>: after the class escape \<open>\d\<close> the hyphen is a literal\<close>
  "is_dsep c = (is_digit c \<or> c = 45 \<or> c = 46 \<or> is_space c)"

section \<open>The regular expressions and their backtracking matcher\<close>

text \<open>
  The constructs the two patterns of \<open>redactPII\<close> use: one character of a class, the
  assertion \<open>\b\<close>, sequence, the greedy \<open>?\<close>, and the greedy repetition of a class
  (\<open>+\<close> is \<open>{1,}\<close>). Capture groups are plain groups here: neither replacement string
  refers to a capture.
\<close>

datatype regex =
    Cls "code_unit \<Rightarrow> bool"
  | WordB
  | Seq regex regex
  | Opt regex
  | Rep "code_unit \<Rightarrow> bool" nat "nat option"

text \<open>
  A matcher state is the code unit before the current position (none at the start of
  the input) and the input that is left.
\<close>

type_synonym mstate = "code_unit option \<times> jsstring"

definition word_before :: "code_unit option \<Rightarrow> bool" where
  "word_before p = (case p of None \<Rightarrow> False | Some c \<Rightarrow> is_word c)"

definition word_after :: "jsstring \<Rightarrow> bool" where
  "word_after s = (case s of [] \<Rightarrow> False | c # _ \<Rightarrow> is_word c)"

definition at_boundary :: "code_unit option \<Rightarrow> jsstring \<Rightarrow> bool" where
  "at_boundary p s = (word_before p \<noteq> word_after s)"

text \<open>
  Greedy repetition of a class between \<open>mn\<close> and \<open>mx\<close> times (\<open>None\<close>: unbounded):
  the states it can stop in, the one that took most first.
\<close>

fun rep :: "(code_unit \<Rightarrow> bool) \<Rightarrow> nat \<Rightarrow> nat option \<Rightarrow> code_unit option \<Rightarrow> jsstring
    \<Rightarrow> mstate list" where
  "rep P mn mx p [] = (if mx = Some 0 \<or> mn = 0 then [(p, [])] else [])"
| "rep P mn mx p (c # s) =
     (if mx = Some 0 then [(p, c # s)]
      else (if P c then rep P (mn - 1) (map_option (\<lambda>k. k - 1) mx) (Some c) s else [])
           @ (if mn = 0 then [(p, c # s)] else []))"

text \<open>
  The matcher returns every state in which the pattern can stop, in the order in which
  backtracking tries them: the continuation of the ECMAScript matcher succeeds on the
  first state of this list that it accepts. An iteration of \<open>?\<close> that consumed nothing
  is rejected, as RepeatMatcher does.
\<close>

fun rmatch :: "regex \<Rightarrow> code_unit option \<Rightarrow> jsstring \<Rightarrow> mstate list" where
  "rmatch (Cls P) p s = (case s of [] \<Rightarrow> [] | c # s' \<Rightarrow> if P c then [(Some c, s')] else [])"
| "rmatch WordB p s = (if at_boundary p s then [(p, s)] else [])"
| "rmatch (Seq r1 r2) p s = concat (map (\<lambda>(p', s'). rmatch r2 p' s') (rmatch r1 p s))"
| "rmatch (Opt r) p s = filter (\<lambda>(p', s'). length s' \<noteq> length s) (rmatch r p s) @ [(p, s)]"
| "rmatch (Rep P mn mx) p s = rep P mn mx p s"

definition first_match :: "regex \<Rightarrow> code_unit option \<Rightarrow> jsstring \<Rightarrow> mstate option" where
  "first_match r p s = (case rmatch r p s of [] \<Rightarrow> None | st # _ \<Rightarrow> Some st)"

text \<open>
  \<open>String.prototype.replace\<close> with a global pattern and a replacement without \<open>$\<close>:
  from the current position, the leftmost position where the pattern matches is
  replaced and the scan goes on behind the match; where it does not match, the code
  unit is copied. After an empty match the scan advances by one code unit.
\<close>

fun replace_all :: "regex \<Rightarrow> jsstring \<Rightarrow> code_unit option \<Rightarrow> jsstring \<Rightarrow> jsstring" where
  "replace_all r new p [] = (case first_match r p [] of None \<Rightarrow> [] | Some _ \<Rightarrow> new)"
| "replace_all r new p (c # s) =
     (case first_match r p (c # s) of
        None \<Rightarrow> c # replace_all r new (Some c) s
      | Some (p', s') \<Rightarrow>
          if length s' < length (c # s) then new @ replace_all r new p' s'
          else new @ c # replace_all r new (Some c) s)"

subsection \<open>The patterns of redactPII\<close>

definition email_re :: regex where
  \<comment> \<open>\<open>/\b[A-Z0-9._%+-]+@[A-Z0-9.-]+\.[A-Z]{2,}\b/gi\<close>\<close>
  "email_re =
     Seq WordB (Seq (Rep is_local 1 None) (Seq (Cls is_at) (Seq (Rep is_domain 1 None)
       (Seq (Cls is_dot) (Seq (Rep is_alpha 2 None) WordB)))))"

definition phone_re :: regex where
  \<comment> \<open>\<open>/(\+?\d{1,3}[-.\s]?)?(\(?\d{2,4}\)?[-.\s]?)?[\d-.\s]{5,15}/g\<close>\<close>
  "phone_re =
     Seq (Opt (Seq (Opt (Cls is_plus)) (Seq (Rep is_digit 1 (Some 3)) (Opt (Cls is_sep)))))
       (Seq (Opt (Seq (Opt (Cls is_lparen)) (Seq (Rep is_digit 2 (Some 4))
                   (Seq (Opt (Cls is_rparen)) (Opt (Cls is_sep))))))
            (Rep is_dsep 5 (Some 15)))"

definition redact_text :: "jsstring \<Rightarrow> jsstring" where
  \<comment> \<open>the two \<open>replace\<close> calls of \<open>redactPII\<close>, the email pattern first\<close>
  "redact_text t =
     replace_all phone_re (js ''[phone]'') None (replace_all email_re (js ''[email]'') None t)"

section \<open>JavaScript values\<close>

text \<open>
  What \<open>JSON.parse\<close> can give, and \<open>undefined\<close> for a property that is not there.
  Numbers are the integers (a JSON number with a fraction or an exponent is outside this
  model); an object is the list of its properties, each name once.
\<close>

datatype jsval =
    JUndefined
  | JNull
  | JBool bool
  | JNum int
  | JStr jsstring
  | JArr "jsval list"
  | JObj "(jsstring \<times> jsval) list"

datatype error = TypeError | Error jsstring | AxiosError

fun truthy :: "jsval \<Rightarrow> bool" where
  "truthy JUndefined = False"
| "truthy JNull = False"
| "truthy (JBool b) = b"
| "truthy (JNum n) = (n \<noteq> 0)"
| "truthy (JStr s) = (s \<noteq> [])"
| "truthy (JArr xs) = True"
| "truthy (JObj kvs) = True"

definition js_or :: "jsval \<Rightarrow> jsval \<Rightarrow> jsval" where
  \<comment> \<open>\<open>a || b\<close>\<close>
  "js_or a b = (if truthy a then a else b)"

definition nullish :: "jsval \<Rightarrow> jsval \<Rightarrow> jsval" where
  \<comment> \<open>\<open>a ?? b\<close>\<close>
  "nullish a b = (if a = JUndefined \<or> a = JNull then b else a)"

fun opt_get :: "jsval \<Rightarrow> jsstring \<Rightarrow> jsval" where
  \<comment> \<open>\<open>v?.k\<close> for the property names of this program, none of which a string, an array,
      a number or a boolean has\<close>
  "opt_get (JObj kvs) k = (case map_of kvs k of None \<Rightarrow> JUndefined | Some v \<Rightarrow> v)"
| "opt_get v k = JUndefined"

fun opt_idx0 :: "jsval \<Rightarrow> jsval" where
  \<comment> \<open>\<open>v?.[0]\<close>\<close>
  "opt_idx0 (JArr xs) = (case xs of [] \<Rightarrow> JUndefined | x # _ \<Rightarrow> x)"
| "opt_idx0 (JStr s) = (case s of [] \<Rightarrow> JUndefined | c # _ \<Rightarrow> JStr [c])"
| "opt_idx0 (JObj kvs) = (case map_of kvs (js ''0'') of None \<Rightarrow> JUndefined | Some v \<Rightarrow> v)"
| "opt_idx0 v = JUndefined"

subsection \<open>String operations\<close>

definition lower_unit :: "code_unit \<Rightarrow> code_unit" where
  \<comment> \<open>the ASCII and Latin-1 letters; the case tables of the rest of Unicode are not
      part of this model, which leaves those code units as they are (the statements
      below compare keywords with the lower-cased text, whatever lower-casing yields)\<close>
  "lower_unit c =
     (if (65 \<le> c \<and> c \<le> 90) \<or> (192 \<le> c \<and> c \<le> 222 \<and> c \<noteq> 215) then c + 32 else c)"

definition toLowerCase :: "jsstring \<Rightarrow> jsstring" where
  "toLowerCase s = map lower_unit s"

fun starts_with :: "jsstring \<Rightarrow> jsstring \<Rightarrow> bool" where
  "starts_with [] s = True"
| "starts_with (a # k) [] = False"
| "starts_with (a # k) (c # s) = (a = c \<and> starts_with k s)"

fun includes_str :: "jsstring \<Rightarrow> jsstring \<Rightarrow> bool" where
  \<comment> \<open>\<open>s.includes(k)\<close>: the search string is tried at every position\<close>
  "includes_str [] k = starts_with k []"
| "includes_str (c # s) k = (starts_with k (c # s) \<or> includes_str s k)"

fun array_some :: "('a \<Rightarrow> bool) \<Rightarrow> 'a list \<Rightarrow> bool" where
  \<comment> \<open>\<open>Array.prototype.some\<close>\<close>
  "array_some f [] = False"
| "array_some f (x # xs) = (f x \<or> array_some f xs)"

fun join :: "jsstring \<Rightarrow> jsstring list \<Rightarrow> jsstring" where
  "join sep [] = []"
| "join sep [x] = x"
| "join sep (x # y # ys) = x @ sep @ join sep (y # ys)"

definition trim :: "jsstring \<Rightarrow> jsstring" where
  "trim s = rev (dropWhile is_space (rev (dropWhile is_space s)))"

fun digits :: "nat \<Rightarrow> jsstring" where
  "digits n = (if n < 10 then [48 + n] else digits (n div 10) @ [48 + n mod 10])"

definition show_int :: "int \<Rightarrow> jsstring" where
  "show_int n = (if n < 0 then 45 # digits (nat (- n)) else digits (nat n))"

fun to_string :: "jsval \<Rightarrow> jsstring" where
  \<comment> \<open>the conversion a template literal applies to a substitution\<close>
  "to_string JUndefined = js ''undefined''"
| "to_string JNull = js ''null''"
| "to_string (JBool b) = (if b then js ''true'' else js ''false'')"
| "to_string (JNum n) = show_int n"
| "to_string (JStr s) = s"
| "to_string (JArr xs) =
     join (js '','')
       (map (\<lambda>x. if x = JUndefined \<or> x = JNull then [] else to_string x) xs)"
| "to_string (JObj kvs) = js ''[object Object]''"

section \<open>The redaction and the classification of server.js\<close>

definition redactPII :: "jsval \<Rightarrow> error + jsval" where
  \<comment> \<open>a falsy argument is returned as it is; \<open>replace\<close> on a value that is not a string
      is a TypeError\<close>
  "redactPII text =
     (if \<not> truthy text then Inr text
      else case text of JStr t \<Rightarrow> Inr (JStr (redact_text t)) | _ \<Rightarrow> Inl TypeError)"

definition sensitiveKeywords :: "jsstring list" where
  "sensitiveKeywords =
     [js ''refund'', js ''charge'', js ''billing'', js ''cancel subscription'',
      js ''delete account'', js ''terminate'', js ''legal'']"

definition isSensitive :: "jsstring \<Rightarrow> bool" where
  \<comment> \<open>lines 98 to 100: \<open>lc = redacted.toLowerCase()\<close>, then \<open>some\<close> over the keywords\<close>
  "isSensitive redacted =
     (let lc = toLowerCase redacted in array_some (\<lambda>k. includes_str lc k) sensitiveKeywords)"

section \<open>The process environment and the two remote services\<close>

text \<open>
  The environment variables the handler and the drafter read, and the two services
  behind axios: each answers with the data of its response or fails. What the services
  answer is not decided by this program, so the model takes it from the environment.
  Console output, the URL and the headers of the requests are not modelled.
\<close>

record env =
  WEBHOOK_SHARED_SECRET :: "jsstring option"
  AUTO_POST_HUMAN_FLAG :: "jsstring option"
  GEMINI_API_KEY :: "jsstring option"
  gemini_post :: "jsstring \<Rightarrow> jsstring \<Rightarrow> error + jsval"
  zendesk_put :: "jsval \<Rightarrow> jsstring \<Rightarrow> bool \<Rightarrow> error + jsval"

definition unset :: "jsstring option \<Rightarrow> bool" where
  \<comment> \<open>\<open>!process.env.X\<close>: the variable is missing or empty\<close>
  "unset v = (case v of None \<Rightarrow> True | Some s \<Rightarrow> s = [])"

datatype effect =
    DrafterCall jsstring
  | ZendeskPost jsval jsstring bool

section \<open>generateReply of gemini.js\<close>

record opts =
  systemBrief :: "jsstring option"

definition default_brief :: jsstring where
  "default_brief =
     [10] @ js ''You are a Napster customer service agent named Guna.'' @ [10]
     @ js ''Write a friendly, concise, Zendesk-safe HTML reply to the following customer message.'' @ [10]
     @ js ''Keep paragraphs short, professional, and accurate. Use numbered steps if giving instructions.'' @ [10]
     @ js ''Do NOT invent account details. If the message mentions billing/refund/account deletion, mark for human review by returning a short note starting with ''
     @ [34] @ js ''[HUMAN REVIEW]'' @ [34] @ js ''.'' @ [10]"

definition build_prompt :: "opts \<Rightarrow> jsstring \<Rightarrow> jsstring" where
  \<comment> \<open>\<open>trim\<close> binds to the second template literal only\<close>
  "build_prompt os ticketPromptText =
     (case systemBrief os of
        None \<Rightarrow> default_brief
      | Some b \<Rightarrow> if b = [] then default_brief else b)
     @ trim ([10, 10] @ js ''Customer message:'' @ [10] @ ticketPromptText @ [10])"

definition reply_fallback :: jsstring where
  "reply_fallback = js ''Sorry '' @ [8212] @ js '' couldn't generate a reply at the moment.''"

definition error_fallback :: jsstring where
  "error_fallback = js ''Error generating reply (AI service).''"

definition reply_of :: "jsval \<Rightarrow> jsval" where
  \<comment> \<open>\<open>data?.candidates?.[0]?.content?.parts?.[0]?.text ?? null\<close>\<close>
  "reply_of data =
     (let candidate = opt_idx0 (opt_get data (js ''candidates''))
      in nullish
           (opt_get (opt_idx0 (opt_get (opt_get candidate (js ''content'')) (js ''parts'')))
              (js ''text''))
           JNull)"

definition generateReply_try :: "env \<Rightarrow> jsstring \<Rightarrow> error + jsstring" where
  \<comment> \<open>the body of the \<open>try\<close>; \<open>JSON.stringify(undefined)\<close> is \<open>undefined\<close>, which has
      no \<open>slice\<close>, and a reply that is not a string has no \<open>trim\<close>\<close>
  "generateReply_try e prompt =
     (case GEMINI_API_KEY e of
        None \<Rightarrow> Inl (Error (js ''GEMINI_API_KEY not set in environment''))
      | Some key \<Rightarrow>
          if key = [] then Inl (Error (js ''GEMINI_API_KEY not set in environment''))
          else case gemini_post e key prompt of
                 Inl err \<Rightarrow> Inl err
               | Inr data \<Rightarrow>
                   let reply = reply_of data
                   in if \<not> truthy reply
                      then (if data = JUndefined then Inl TypeError else Inr reply_fallback)
                      else case reply of JStr r \<Rightarrow> Inr (trim r) | _ \<Rightarrow> Inl TypeError)"

definition generateReply :: "env \<Rightarrow> jsstring \<Rightarrow> opts \<Rightarrow> error + jsstring" where
  \<comment> \<open>\<open>try\<close> and \<open>catch\<close>: whatever the body throws becomes the fixed string\<close>
  "generateReply e ticketPromptText os =
     (case generateReply_try e (build_prompt os ticketPromptText) of
        Inl err \<Rightarrow> Inr error_fallback
      | Inr s \<Rightarrow> Inr s)"

section \<open>The webhook handler of server.js\<close>

record request =
  x_webhook_secret :: "jsstring option"
  req_body :: jsval

record response =
  status :: nat
  json :: jsval

definition postReplyToZendesk ::
    "env \<Rightarrow> jsval \<Rightarrow> jsstring \<Rightarrow> bool \<Rightarrow> (error + jsval) \<times> effect list" where
  \<comment> \<open>one PUT with the comment \<open>{body: bodyHtml, public: isPublic}\<close>\<close>
  "postReplyToZendesk e ticketId bodyHtml isPublic =
     (zendesk_put e ticketId bodyHtml isPublic, [ZendeskPost ticketId bodyHtml isPublic])"

definition verifySecret :: "env \<Rightarrow> request \<Rightarrow> bool" where
  "verifySecret e req =
     (if unset (WEBHOOK_SHARED_SECRET e) then True
      else let incoming = (case x_webhook_secret req of None \<Rightarrow> [] | Some h \<Rightarrow> h)
           in incoming \<noteq> [] \<and> Some incoming = WEBHOOK_SHARED_SECRET e)"

definition ticketId_of :: "jsval \<Rightarrow> jsval" where
  \<comment> \<open>\<open>payload?.ticket?.id || payload?.ticket_id || payload?.id || payload?.object?.id\<close>\<close>
  "ticketId_of payload =
     js_or (opt_get (opt_get payload (js ''ticket'')) (js ''id''))
       (js_or (opt_get payload (js ''ticket_id''))
          (js_or (opt_get payload (js ''id''))
             (opt_get (opt_get payload (js ''object'')) (js ''id''))))"

definition rawComment_of :: "jsval \<Rightarrow> jsval" where
  "rawComment_of payload =
     js_or (opt_get (opt_get payload (js ''comment'')) (js ''body''))
       (js_or (opt_get (opt_get (opt_get payload (js ''ticket'')) (js ''latest_comment'')) (js ''body''))
          (js_or (opt_get (opt_get (opt_get payload (js ''object'')) (js ''latest_comment'')) (js ''body''))
             (js_or (opt_get (opt_get payload (js ''ticket'')) (js ''description''))
                (js_or (opt_get (opt_get payload (js ''object'')) (js ''description''))
                   (JStr [])))))"

definition error_json :: "jsstring \<Rightarrow> jsval" where
  "error_json msg = JObj [(js ''ok'', JBool False), (js ''error'', JStr msg)]"

definition flagged_json :: jsval where
  "flagged_json = JObj [(js ''ok'', JBool True), (js ''note'', JStr (js ''Flagged for human review''))]"

definition humanNote_of :: "jsstring \<Rightarrow> jsstring" where
  "humanNote_of redacted =
     js ''[HUMAN REVIEW] This ticket contains sensitive keywords (''
     @ join (js '', '') sensitiveKeywords
     @ js ''). Please review and reply manually.'' @ [10, 10]
     @ js ''Customer message (redacted):'' @ [10] @ redacted"

definition ticketPromptText_of :: "jsval \<Rightarrow> jsstring \<Rightarrow> jsstring" where
  "ticketPromptText_of ticketId redacted =
     js ''Ticket #'' @ to_string ticketId @ [10, 10] @ js ''Customer message:'' @ [10]
     @ redacted @ [10, 10]
     @ js ''Keep response short and helpful. Respond as Napster support agent 'Guna'.''"

definition finalBody_of :: "jsstring \<Rightarrow> jsstring" where
  "finalBody_of draft =
     js ''Hi,'' @ [10, 10] @ draft @ [10, 10, 8212, 10] @ js ''Guna, Napster Customer Support''"

definition handler_try :: "env \<Rightarrow> request \<Rightarrow> (error + response) \<times> effect list" where
  \<comment> \<open>the body of the \<open>try\<close>: what it returns or throws, and the calls it made\<close>
  "handler_try e req =
     (if \<not> verifySecret e req
      then (Inr \<lparr>status = 401, json = error_json (js ''Invalid shared secret'')\<rparr>, [])
      else
        let payload = req_body req;
            ticketId = ticketId_of payload;
            rawComment = rawComment_of payload
        in if \<not> truthy ticketId
           then (Inr \<lparr>status = 400, json = error_json (js ''No ticket id in payload'')\<rparr>, [])
           else case redactPII rawComment of
             Inl err \<Rightarrow> (Inl err, [])
           | Inr (JStr redacted) \<Rightarrow>
               if isSensitive redacted
               then
                 (if AUTO_POST_HUMAN_FLAG e = Some (js ''true'')
                  then case postReplyToZendesk e ticketId (humanNote_of redacted) False of
                         (Inl err, fx) \<Rightarrow> (Inl err, fx)
                       | (Inr _, fx) \<Rightarrow> (Inr \<lparr>status = 200, json = flagged_json\<rparr>, fx)
                  else (Inr \<lparr>status = 200, json = flagged_json\<rparr>, []))
               else
                 let ticketPromptText = ticketPromptText_of ticketId redacted;
                     called = [DrafterCall ticketPromptText]
                 in (case generateReply e ticketPromptText \<lparr>systemBrief = None\<rparr> of
                       Inl err \<Rightarrow> (Inl err, called)
                     | Inr draft \<Rightarrow>
                         let finalBody = finalBody_of draft
                         in case postReplyToZendesk e ticketId finalBody False of
                              (Inl err, fx) \<Rightarrow> (Inl err, called @ fx)
                            | (Inr _, fx) \<Rightarrow>
                                (Inr \<lparr>status = 200,
                                      json = JObj [(js ''ok'', JBool True),
                                                   (js ''ticketId'', ticketId),
                                                   (js ''replyPreview'', JStr (take 600 finalBody))]\<rparr>,
                                 called @ fx))
           | Inr _ \<Rightarrow> (Inl TypeError, []))"

definition handler :: "env \<Rightarrow> request \<Rightarrow> response \<times> effect list" where
  \<comment> \<open>\<open>catch\<close>: every error becomes the 500 response\<close>
  "handler e req =
     (case handler_try e req of
        (Inl err, fx) \<Rightarrow> (\<lparr>status = 500, json = error_json (js ''Internal server error'')\<rparr>, fx)
      | (Inr r, fx) \<Rightarrow> (r, fx))"

section \<open>Example inputs\<close>

text \<open>
  A service answer of the expected shape, an environment without a shared secret in
  which both services answer, variants of it, and a request with ticket 42.
\<close>

definition example_reply :: jsval where
  "example_reply =
     JObj [(js ''candidates'',
       JArr [JObj [(js ''content'',
         JObj [(js ''parts'', JArr [JObj [(js ''text'', JStr (js '' Hello! ''))]])])]])]"

definition numeric_reply :: jsval where
  "numeric_reply =
     JObj [(js ''candidates'',
       JArr [JObj [(js ''content'',
         JObj [(js ''parts'', JArr [JObj [(js ''text'', JNum 5)]])])]])]"

definition example_env :: env where
  "example_env =
     \<lparr>WEBHOOK_SHARED_SECRET = None, AUTO_POST_HUMAN_FLAG = Some (js ''true''),
      GEMINI_API_KEY = Some (js ''key''),
      gemini_post = (\<lambda>key prompt. Inr example_reply),
      zendesk_put = (\<lambda>ticketId bodyHtml isPublic. Inr JNull)\<rparr>"

definition guarded_env :: env where
  "guarded_env = example_env\<lparr>WEBHOOK_SHARED_SECRET := Some (js ''s3cret'')\<rparr>"

definition numeric_env :: env where
  "numeric_env = example_env\<lparr>gemini_post := (\<lambda>key prompt. Inr numeric_reply)\<rparr>"

definition failing_env :: env where
  "failing_env = example_env\<lparr>gemini_post := (\<lambda>key prompt. Inl AxiosError)\<rparr>"

definition shapeless_env :: env where
  "shapeless_env = example_env\<lparr>gemini_post := (\<lambda>key prompt. Inr (JObj []))\<rparr>"

definition example_request :: "jsstring \<Rightarrow> request" where
  "example_request text =
     \<lparr>x_webhook_secret = None,
      req_body = JObj [(js ''ticket'', JObj [(js ''id'', JNum 42)]),
                       (js ''comment'', JObj [(js ''body'', JStr text)])]\<rparr>"

section \<open>Notions used in the statements\<close>

text \<open>
  The least number of code units a pattern consumes; a code unit that no class of the
  pattern accepts and that \<open>\b\<close> cannot tell from the end of the input; a pattern
  without \<open>\b\<close>; and a text in which the pattern matches at no position.
\<close>

fun min_len :: "regex \<Rightarrow> nat" where
  "min_len (Cls P) = 1"
| "min_len WordB = 0"
| "min_len (Seq r1 r2) = min_len r1 + min_len r2"
| "min_len (Opt r) = 0"
| "min_len (Rep P mn mx) = (case mx of None \<Rightarrow> mn | Some m \<Rightarrow> min mn m)"

fun rejects :: "regex \<Rightarrow> code_unit \<Rightarrow> bool" where
  "rejects (Cls P) b = (\<not> P b)"
| "rejects WordB b = (\<not> is_word b)"
| "rejects (Seq r1 r2) b = (rejects r1 b \<and> rejects r2 b)"
| "rejects (Opt r) b = rejects r b"
| "rejects (Rep P mn mx) b = (\<not> P b)"

fun no_boundary :: "regex \<Rightarrow> bool" where
  "no_boundary (Cls P) = True"
| "no_boundary WordB = False"
| "no_boundary (Seq r1 r2) = (no_boundary r1 \<and> no_boundary r2)"
| "no_boundary (Opt r) = no_boundary r"
| "no_boundary (Rep P mn mx) = True"

fun match_free :: "regex \<Rightarrow> code_unit option \<Rightarrow> jsstring \<Rightarrow> bool" where
  "match_free r p [] = (first_match r p [] = None)"
| "match_free r p (c # s) = (first_match r p (c # s) = None \<and> match_free r (Some c) s)"

text \<open>A matcher state with more input appended behind it.\<close>

definition behind :: "jsstring \<Rightarrow> mstate \<Rightarrow> mstate" where
  "behind y st = (fst st, snd st @ y)"


text \<open>
  The two rules of \<open>redactPII\<close> on their own: the global replace of the email pattern,
  begun behind a given code unit, and the global replace of the phone pattern.
\<close>

definition email_rule :: "code_unit option \<Rightarrow> jsstring \<Rightarrow> jsstring" where
  "email_rule p s = replace_all email_re (js ''[email]'') p s"

definition phone_rule :: "jsstring \<Rightarrow> jsstring" where
  "phone_rule s = replace_all phone_re (js ''[phone]'') None s"





text \<open>
  A text that ends with two digits and a closing parenthesis: there the second group of
  the phone pattern, \<open>\(?\d{2,4}\)?[-.\s]?\<close>, can take the parenthesis.
\<close>

definition ends_digits_rparen :: "jsstring \<Rightarrow> bool" where
  "ends_digits_rparen s =
     (case rev s of c # d2 # d1 # _ \<Rightarrow> is_rparen c \<and> is_digit d2 \<and> is_digit d1 | _ \<Rightarrow> False)"


section \<open>Unfolding rules for evaluation\<close>

lemmas class_defs = is_word_def is_alpha_def is_digit_def is_local_def is_domain_def is_at_def
  is_dot_def is_plus_def is_lparen_def is_rparen_def is_sep_def is_dsep_def is_space_def

lemmas match_defs = js_def first_match_def at_boundary_def word_before_def word_after_def
  email_re_def phone_re_def redact_text_def

section \<open>Properties of the matcher and of the global replace\<close>

lemma rep_min_len:
  "(p', s') \<in> set (rep P mn mx p s)
   \<Longrightarrow> length s' + (case mx of None \<Rightarrow> mn | Some m \<Rightarrow> min mn m) \<le> length s"
proof (induction s arbitrary: mn mx p)
  case Nil
  then show ?case by (auto split: if_splits option.splits)
next
  case (Cons c s)
  show ?case
  proof (cases "mx = Some 0")
    case True
    with Cons.prems show ?thesis by simp
  next
    case False
    from Cons.prems False consider
        (step) "P c" "(p', s') \<in> set (rep P (mn - 1) (map_option (\<lambda>k. k - 1) mx) (Some c) s)"
      | (stop) "mn = 0" "(p', s') = (p, c # s)"
      by (auto split: if_splits)
    then show ?thesis
    proof cases
      case step
      from Cons.IH [OF step(2)] False show ?thesis
        by (cases mx) (auto split: option.splits)
    next
      case stop
      then show ?thesis by (auto split: option.splits)
    qed
  qed
qed

lemma rmatch_min_len:
  "(p', s') \<in> set (rmatch r p s) \<Longrightarrow> length s' + min_len r \<le> length s"
proof (induction r arbitrary: p s p' s')
  case (Cls P)
  then show ?case by (auto split: list.splits if_splits)
next
  case WordB
  then show ?case by (auto split: if_splits)
next
  case (Seq r1 r2)
  from Seq.prems obtain p1 s1 where a: "(p1, s1) \<in> set (rmatch r1 p s)"
    and b: "(p', s') \<in> set (rmatch r2 p1 s1)" by auto
  from Seq.IH(1) [OF a] Seq.IH(2) [OF b] show ?case by simp
next
  case (Opt r)
  from Opt.prems have "(p', s') \<in> set (rmatch r p s) \<or> (p', s') = (p, s)" by auto
  then show ?case using Opt.IH by fastforce
next
  case (Rep P mn mx)
  then show ?case using rep_min_len by simp
qed

lemma first_match_shorter:
  assumes "0 < min_len r" and "first_match r p s = Some (p', s')"
  shows "length s' < length s"
proof -
  from assms(2) have "(p', s') \<in> set (rmatch r p s)"
    by (auto simp: first_match_def split: list.splits)
  from rmatch_min_len [OF this] assms(1) show ?thesis by simp
qed

lemma first_match_Nil: "0 < min_len r \<Longrightarrow> first_match r p [] = None"
  using first_match_shorter [of r p "[]"] by (cases "first_match r p []") auto

lemma rep_suffix: "(p', s') \<in> set (rep P mn mx p s) \<Longrightarrow> \<exists>u. s = u @ s'"
proof (induction s arbitrary: mn mx p)
  case Nil
  then show ?case by (auto split: if_splits)
next
  case (Cons c s)
  from Cons.prems consider
      (stay) "(p', s') = (p, c # s)"
    | (step) "(p', s') \<in> set (rep P (mn - 1) (map_option (\<lambda>k. k - 1) mx) (Some c) s)"
    by (auto split: if_splits)
  then show ?case
  proof cases
    case stay
    then show ?thesis by simp
  next
    case step
    from Cons.IH [OF step] obtain u where "s = u @ s'" by blast
    then have "c # s = (c # u) @ s'" by simp
    then show ?thesis by blast
  qed
qed

lemma rmatch_suffix: "(p', s') \<in> set (rmatch r p s) \<Longrightarrow> \<exists>u. s = u @ s'"
proof (induction r arbitrary: p s p' s')
  case (Cls P)
  then show ?case by (auto split: list.splits if_splits)
next
  case WordB
  then show ?case by (auto split: if_splits)
next
  case (Seq r1 r2)
  from Seq.prems obtain p1 s1 where a: "(p1, s1) \<in> set (rmatch r1 p s)"
    and b: "(p', s') \<in> set (rmatch r2 p1 s1)" by auto
  from Seq.IH(1) [OF a] Seq.IH(2) [OF b] show ?case by force
next
  case (Opt r)
  from Opt.prems have "(p', s') \<in> set (rmatch r p s) \<or> (p', s') = (p, s)" by auto
  then show ?case using Opt.IH by fastforce
next
  case (Rep P mn mx)
  then show ?case using rep_suffix by simp
qed


lemma behind_simps [simp]:
  "behind y (p, s) = (p, s @ y)" "fst (behind y st) = fst st" "snd (behind y st) = snd st @ y"
  by (simp_all add: behind_def)

lemma rep_blocked:
  "\<not> P b \<Longrightarrow> rep P mn mx p (x @ b # y) = map (behind (b # y)) (rep P mn mx p x)"
  by (induction x arbitrary: mn mx p) auto

lemma word_after_blocked: "\<not> is_word b \<Longrightarrow> word_after (x @ b # y) = word_after x"
  by (cases x) (auto simp: word_after_def)

lemma rmatch_blocked:
  "rejects r b \<Longrightarrow> rmatch r p (x @ b # y) = map (behind (b # y)) (rmatch r p x)"
proof (induction r arbitrary: p x)
  case (Cls P)
  then show ?case by (cases x) auto
next
  case WordB
  then show ?case by (simp add: at_boundary_def word_after_blocked)
next
  case (Seq r1 r2)
  from Seq.prems have r1: "rejects r1 b" and r2: "rejects r2 b" by simp_all
  have "rmatch (Seq r1 r2) p (x @ b # y)
      = concat (map (\<lambda>(p', s'). rmatch r2 p' s') (map (behind (b # y)) (rmatch r1 p x)))"
    by (simp add: Seq.IH(1) [OF r1])
  also have "\<dots> = concat (map (\<lambda>st. map (behind (b # y)) (rmatch r2 (fst st) (snd st))) (rmatch r1 p x))"
    by (simp add: o_def case_prod_unfold Seq.IH(2) [OF r2])
  also have "\<dots> = map (behind (b # y)) (rmatch (Seq r1 r2) p x)"
    by (simp add: map_concat o_def case_prod_unfold)
  finally show ?case .
next
  case (Opt r)
  then show ?case by (simp add: filter_map o_def case_prod_unfold)
next
  case (Rep P mn mx)
  then show ?case by (simp add: rep_blocked)
qed

lemma first_match_blocked:
  "rejects r b \<Longrightarrow>
   first_match r p (x @ b # y) = map_option (behind (b # y)) (first_match r p x)"
  by (simp add: first_match_def rmatch_blocked split: list.splits)



lemma replace_all_match_free: "match_free r p s \<Longrightarrow> replace_all r new p s = s"
  by (induction s arbitrary: p) auto

lemma first_match_suffix: "first_match r p s = Some (p', s') \<Longrightarrow> \<exists>u. s = u @ s'"
  using rmatch_suffix [of p' s' r p s] by (auto simp: first_match_def split: list.splits)

lemma set_replace_all: "set (replace_all r new p s) \<subseteq> set s \<union> set new"
proof (induction r new p s rule: replace_all.induct)
  case (1 r new p)
  then show ?case by (auto split: option.splits)
next
  case (2 r new p c s)
  show ?case
  proof (cases "first_match r p (c # s)")
    case None
    with "2.IH"(1) [OF None] show ?thesis by auto
  next
    case (Some st)
    obtain p' s' where st: "st = (p', s')" by (cases st)
    from Some st have fm: "first_match r p (c # s) = Some (p', s')" by simp
    from first_match_suffix [OF fm] obtain u where u: "c # s = u @ s'" by blast
    then have sub: "set s' \<subseteq> set (c # s)" by (metis set_append Un_upper2)
    show ?thesis
    proof (cases "length s' < length (c # s)")
      case True
      with fm "2.IH"(2) [OF fm refl True] sub show ?thesis by auto
    next
      case False
      with fm "2.IH"(3) [OF fm refl False] show ?thesis by auto
    qed
  qed
qed

lemma rep_prev_irrelevant: "map snd (rep P mn mx p s) = map snd (rep P mn mx q s)"
  by (induction s arbitrary: mn mx p q) auto

lemma rmatch_prev_irrelevant:
  "no_boundary r \<Longrightarrow> map snd (rmatch r p s) = map snd (rmatch r q s)"
proof (induction r arbitrary: p q s)
  case (Cls P)
  then show ?case by (auto split: list.splits)
next
  case WordB
  then show ?case by simp
next
  case (Seq r1 r2)
  from Seq.prems have n1: "no_boundary r1" and n2: "no_boundary r2" by simp_all
  have "map snd (rmatch (Seq r1 r2) p s)
      = concat (map (\<lambda>st. map snd (rmatch r2 (fst st) (snd st))) (rmatch r1 p s))"
    by (simp add: map_concat o_def case_prod_unfold)
  also have "\<dots> = concat (map (\<lambda>st. map snd (rmatch r2 None (snd st))) (rmatch r1 p s))"
    using Seq.IH(2) [OF n2] by metis
  also have "\<dots> = concat (map (\<lambda>s'. map snd (rmatch r2 None s')) (map snd (rmatch r1 p s)))"
    by (simp add: o_def)
  also have "\<dots> = concat (map (\<lambda>s'. map snd (rmatch r2 None s')) (map snd (rmatch r1 q s)))"
    using Seq.IH(1) [OF n1, of p s q] by simp
  also have "\<dots> = concat (map (\<lambda>st. map snd (rmatch r2 None (snd st))) (rmatch r1 q s))"
    by (simp add: o_def)
  also have "\<dots> = concat (map (\<lambda>st. map snd (rmatch r2 (fst st) (snd st))) (rmatch r1 q s))"
    using Seq.IH(2) [OF n2] by metis
  also have "\<dots> = map snd (rmatch (Seq r1 r2) q s)"
    by (simp add: map_concat o_def case_prod_unfold)
  finally show ?case .
next
  case (Opt r)
  have "map snd (filter (\<lambda>(p', s'). length s' \<noteq> length s) (rmatch r p s))
      = filter (\<lambda>s'. length s' \<noteq> length s) (map snd (rmatch r p s))"
    by (simp add: filter_map o_def case_prod_unfold)
  moreover have "map snd (filter (\<lambda>(p', s'). length s' \<noteq> length s) (rmatch r q s))
      = filter (\<lambda>s'. length s' \<noteq> length s) (map snd (rmatch r q s))"
    by (simp add: filter_map o_def case_prod_unfold)
  ultimately show ?case using Opt.IH [of p s q] Opt.prems by simp
next
  case (Rep P mn mx)
  then show ?case using rep_prev_irrelevant by simp
qed

lemma first_match_prev_irrelevant:
  assumes "no_boundary r"
  shows "map_option snd (first_match r p s) = map_option snd (first_match r q s)"
proof -
  have "map_option snd (first_match r p s)
      = (case map snd (rmatch r p s) of [] \<Rightarrow> None | s' # _ \<Rightarrow> Some s')" for p
    by (simp add: first_match_def split: list.splits)
  then show ?thesis using rmatch_prev_irrelevant [OF assms, of p s q] by simp
qed

lemma replace_all_prev_irrelevant:
  assumes "no_boundary r"
  shows "replace_all r new p s = replace_all r new q s"
proof (induction s arbitrary: p q rule: length_induct)
  case (1 s)
  show ?case
  proof (cases s)
    case Nil
    from first_match_prev_irrelevant [OF assms, of p "[]" q] Nil show ?thesis
      by (cases "first_match r p []"; cases "first_match r q []") auto
  next
    case (Cons c t)
    have tail: "replace_all r new p1 t = replace_all r new q1 t" for p1 q1
      using 1 Cons by simp
    show ?thesis
    proof (cases "first_match r p (c # t)")
      case None
      with first_match_prev_irrelevant [OF assms, of p "c # t" q]
      have "first_match r q (c # t) = None" by simp
      with None Cons tail show ?thesis by simp
    next
      case (Some st)
      obtain p' s' where st: "st = (p', s')" by (cases st)
      from Some st first_match_prev_irrelevant [OF assms, of p "c # t" q]
      obtain q' where fq: "first_match r q (c # t) = Some (q', s')" by (cases "first_match r q (c # t)") auto
      show ?thesis
      proof (cases "length s' < length (c # t)")
        case True
        then have "replace_all r new p' s' = replace_all r new q' s'" using 1 Cons by simp
        with Some st fq True Cons show ?thesis by simp
      next
        case False
        with Some st fq Cons tail show ?thesis by simp
      qed
    qed
  qed
qed


lemma rep_at_block: "s = [] \<or> \<not> P (hd s) \<Longrightarrow> rep P 0 mx p s = [(p, s)]"
  by (cases s) auto

lemma rep_tail_vanish:
  assumes "list_all P u" and "s = [] \<or> \<not> P (hd s)"
    and "\<forall>m. mx = Some m \<longrightarrow> length u \<le> m"
    and "\<forall>p' a b. u = a @ b \<longrightarrow> a \<noteq> [] \<longrightarrow> K (p', b @ s) = []"
  shows "concat (map K (rep P 0 mx p (u @ s))) = K (p, u @ s)"
  using assms
proof (induction u arbitrary: mx p)
  case Nil
  then show ?case by (simp add: rep_at_block)
next
  case (Cons c u)
  from Cons.prems(3) have mx: "mx \<noteq> Some 0" by auto
  from Cons.prems(1) have c: "P c" and u: "list_all P u" by simp_all
  have bound: "\<forall>m. map_option (\<lambda>k. k - 1) mx = Some m \<longrightarrow> length u \<le> m"
    using Cons.prems(3) by (cases mx) auto
  have vanish: "\<forall>p' a b. u = a @ b \<longrightarrow> a \<noteq> [] \<longrightarrow> K (p', b @ s) = []"
  proof (intro allI impI)
    fix p' a b assume "u = a @ b" "a \<noteq> []"
    then have "c # u = (c # a) @ b" "c # a \<noteq> []" by simp_all
    with Cons.prems(4) show "K (p', b @ s) = []" by blast
  qed
  have "c # u = [c] @ u" "[c] \<noteq> []" by simp_all
  with Cons.prems(4) have here: "K (Some c, u @ s) = []" by blast
  from Cons.IH [OF u Cons.prems(2) bound vanish, of "Some c"] here
  have "concat (map K (rep P 0 (map_option (\<lambda>k. k - 1) mx) (Some c) (u @ s))) = []" by simp
  with mx c show ?case by simp
qed

lemma rep_then_first:
  assumes "list_all P u1" and "list_all P u2" and "u1 \<noteq> []" and "mn \<le> length u1"
    and "s = [] \<or> \<not> P (hd s)"
    and "\<forall>m. mx = Some m \<longrightarrow> length u1 + length u2 \<le> m"
    and "\<forall>p' a b. u2 = a @ b \<longrightarrow> a \<noteq> [] \<longrightarrow> K (p', b @ s) = []"
    and "K (Some (last u1), u2 @ s) = st # rest"
  shows "\<exists>rest'. concat (map K (rep P mn mx p (u1 @ u2 @ s))) = st # rest'"
  using assms(1,3,4,6,8)
proof (induction u1 arbitrary: mn mx p)
  case Nil
  then show ?case by simp
next
  case (Cons c u1)
  from Cons.prems(4) have mx: "mx \<noteq> Some 0" by auto
  from Cons.prems(1) have c: "P c" and u1: "list_all P u1" by simp_all
  have unfold: "concat (map K (rep P mn mx p ((c # u1) @ u2 @ s)))
      = concat (map K (rep P (mn - 1) (map_option (\<lambda>k. k - 1) mx) (Some c) (u1 @ u2 @ s)))
        @ (if mn = 0 then K (p, c # u1 @ u2 @ s) else [])"
    using mx c by simp
  show ?case
  proof (cases "u1 = []")
    case True
    with Cons.prems(3) have mn: "mn - 1 = 0" by simp
    have bound: "\<forall>m. map_option (\<lambda>k. k - 1) mx = Some m \<longrightarrow> length u2 \<le> m"
      using Cons.prems(4) True by (cases mx) auto
    from rep_tail_vanish [OF assms(2) assms(5) bound assms(7), of "Some c"]
    have "concat (map K (rep P 0 (map_option (\<lambda>k. k - 1) mx) (Some c) (u2 @ s)))
        = K (Some c, u2 @ s)" .
    with unfold True mn Cons.prems(5) show ?thesis by simp
  next
    case False
    have bound: "\<forall>m. map_option (\<lambda>k. k - 1) mx = Some m \<longrightarrow> length u1 + length u2 \<le> m"
      using Cons.prems(4) by (cases mx) auto
    from Cons.prems(3) have mn: "mn - 1 \<le> length u1" by simp
    from Cons.prems(5) False have k: "K (Some (last u1), u2 @ s) = st # rest" by simp
    from Cons.IH [OF u1 False mn bound k, of "Some c"] obtain rest' where
      "concat (map K (rep P (mn - 1) (map_option (\<lambda>k. k - 1) mx) (Some c) (u1 @ u2 @ s)))
         = st # rest'" by blast
    with unfold show ?thesis by simp
  qed
qed


lemma concat_map_Nil: "(\<And>st. st \<in> set xs \<Longrightarrow> K st = []) \<Longrightarrow> concat (map K xs) = []"
  by (induction xs) auto

lemma rmatch_at_absent: "64 \<notin> set s \<Longrightarrow> rmatch (Seq (Cls is_at) r) p s = []"
  by (cases s) (auto simp: is_at_def)

lemma rmatch_email_needs_at:
  assumes "64 \<notin> set s"
  shows "rmatch email_re p s = []"
proof -
  let ?R2 = "Seq (Cls is_at) (Seq (Rep is_domain 1 None)
       (Seq (Cls is_dot) (Seq (Rep is_alpha 2 None) WordB)))"
  have "rmatch ?R2 p' s' = []" if "(p', s') \<in> set (rep is_local 1 None q s)" for p' s' q
  proof -
    from rep_suffix [OF that] obtain u where "s = u @ s'" by blast
    with assms have "64 \<notin> set s'" by auto
    then show ?thesis by (rule rmatch_at_absent)
  qed
  then have "rmatch (Seq (Rep is_local 1 None) ?R2) q s = []" for q
    by (auto intro!: concat_map_Nil)
  then show ?thesis by (simp add: email_re_def)
qed

lemma email_match_free: "64 \<notin> set s \<Longrightarrow> match_free email_re p s"
  by (induction s arbitrary: p) (simp_all add: first_match_def rmatch_email_needs_at)

lemma email_pass_without_at:
  "64 \<notin> set s \<Longrightarrow> replace_all email_re new p s = s"
  by (simp add: email_match_free replace_all_match_free)

lemma seq_rep_first:
  assumes "list_all P u1" and "list_all P u2" and "u1 \<noteq> []" and "mn \<le> length u1"
    and "s = [] \<or> \<not> P (hd s)"
    and "\<forall>m. mx = Some m \<longrightarrow> length u1 + length u2 \<le> m"
    and "\<forall>p' a b. u2 = a @ b \<longrightarrow> a \<noteq> [] \<longrightarrow> rmatch r p' (b @ s) = []"
    and "rmatch r (Some (last u1)) (u2 @ s) = st # rest"
  shows "\<exists>rest'. rmatch (Seq (Rep P mn mx) r) p (u1 @ u2 @ s) = st # rest'"
proof -
  have v: "\<forall>p' a b. u2 = a @ b \<longrightarrow> a \<noteq> [] \<longrightarrow> (\<lambda>(p', s'). rmatch r p' s') (p', b @ s) = []"
    using assms(7) by simp
  have k: "(\<lambda>(p', s'). rmatch r p' s') (Some (last u1), u2 @ s) = st # rest"
    using assms(8) by simp
  from rep_then_first [where K = "\<lambda>(p', s'). rmatch r p' s'",
      OF assms(1) assms(2) assms(3) assms(4) assms(5) assms(6) v k, of p]
  show ?thesis by simp
qed

lemma email_first_match:
  assumes "l \<noteq> []" and "list_all is_local l" and "is_word (hd l)"
    and "d \<noteq> []" and "list_all is_domain d"
    and "list_all is_alpha tld" and "2 \<le> length tld"
    and "\<not> word_before p"
    and "post = [] \<or> (\<not> is_word (hd post) \<and> \<not> is_domain (hd post))"
  shows "first_match email_re p (l @ 64 # d @ 46 # tld @ post) = Some (Some (last tld), post)"
proof -
  let ?R5 = "Seq (Rep is_alpha 2 None) WordB"
  let ?R4 = "Seq (Cls is_dot) ?R5"
  let ?R3 = "Seq (Rep is_domain 1 None) ?R4"
  let ?R2 = "Seq (Cls is_at) ?R3"
  let ?R1 = "Seq (Rep is_local 1 None) ?R2"
  from assms(7) have tld: "tld \<noteq> []" by auto
  with assms(6) have last_alpha: "is_alpha (last tld)"
    by (metis last_in_set list_all_iff)
  have post_alpha: "post = [] \<or> \<not> is_alpha (hd post)"
    using assms(9) by (auto simp: is_word_def)
  have post_domain: "post = [] \<or> \<not> is_domain (hd post)"
    using assms(9) by auto
  have post_word: "\<not> word_after post"
    using assms(9) by (cases post) (auto simp: word_after_def)
  \<comment> \<open>the top-level domain and the closing boundary\<close>
  have k5: "rmatch WordB (Some (last tld)) ([] @ post) = (Some (last tld), post) # []"
    using last_alpha post_word by (simp add: at_boundary_def word_before_def is_word_def)
  have "\<exists>m. rmatch ?R5 (Some 46) (tld @ [] @ post) = (Some (last tld), post) # m"
    by (rule seq_rep_first [OF assms(6) _ tld assms(7) post_alpha _ _ k5]) simp_all
  then obtain m5 where s5: "rmatch ?R5 (Some 46) (tld @ post) = (Some (last tld), post) # m5"
    by auto
  \<comment> \<open>the dot\<close>
  have s4: "rmatch ?R4 q (46 # tld @ post) = (Some (last tld), post) # m5" for q
    using s5 by (simp add: is_dot_def)
  \<comment> \<open>the domain: no dot behind the last one\<close>
  have vanish: "\<forall>p' a b. 46 # tld = a @ b \<longrightarrow> a \<noteq> [] \<longrightarrow> rmatch ?R4 p' (b @ post) = []"
  proof (intro allI impI)
    fix p' :: "code_unit option" and a b :: jsstring
    assume eq: "46 # tld = a @ b" and a: "a \<noteq> []"
    then obtain a' where "tld = a' @ b" by (cases a) auto
    then have "set b \<subseteq> set tld" by auto
    with assms(6) have balpha: "list_all is_alpha b" by (auto simp: list_all_iff)
    have "b @ post = [] \<or> hd (b @ post) \<noteq> 46"
    proof (cases b)
      case Nil
      with post_domain show ?thesis by (auto simp: is_domain_def)
    next
      case (Cons x xs)
      with balpha show ?thesis by (auto simp: is_alpha_def)
    qed
    then have "rmatch (Cls is_dot) p' (b @ post) = []"
      by (cases "b @ post") (auto simp: is_dot_def)
    then show "rmatch ?R4 p' (b @ post) = []" by simp
  qed
  have dot_domain: "list_all is_domain (46 # tld)"
    using assms(6) by (auto simp: list_all_iff is_domain_def)
  have k3: "rmatch ?R4 (Some (last d)) ((46 # tld) @ post) = (Some (last tld), post) # m5"
    using s4 by simp
  have "\<exists>m. rmatch ?R3 (Some 64) (d @ (46 # tld) @ post) = (Some (last tld), post) # m"
    using assms(4)
    by (intro seq_rep_first [OF assms(5) dot_domain assms(4) _ post_domain _ vanish k3])
       (simp_all add: Suc_le_eq)
  then obtain m3 where s3: "rmatch ?R3 (Some 64) (d @ 46 # tld @ post) = (Some (last tld), post) # m3"
    by auto
  \<comment> \<open>the at sign\<close>
  have s2: "rmatch ?R2 q (64 # d @ 46 # tld @ post) = (Some (last tld), post) # m3" for q
    using s3 by (simp add: is_at_def)
  \<comment> \<open>the local part\<close>
  have at_block: "64 # d @ 46 # tld @ post = [] \<or> \<not> is_local (hd (64 # d @ 46 # tld @ post))"
    by (simp add: is_local_def is_alpha_def is_digit_def)
  have k1: "rmatch ?R2 (Some (last l)) ([] @ 64 # d @ 46 # tld @ post)
      = (Some (last tld), post) # m3"
    using s2 by simp
  have "\<exists>m. rmatch ?R1 p (l @ [] @ 64 # d @ 46 # tld @ post) = (Some (last tld), post) # m"
    using assms(1)
    by (intro seq_rep_first [OF assms(2) _ assms(1) _ at_block _ _ k1]) (simp_all add: Suc_le_eq)
  then obtain m1 where s1: "rmatch ?R1 p (l @ 64 # d @ 46 # tld @ post) = (Some (last tld), post) # m1"
    by auto
  \<comment> \<open>the opening boundary\<close>
  have "word_after (l @ 64 # d @ 46 # tld @ post)"
    using assms(1,3) by (cases l) (auto simp: word_after_def)
  with assms(8) have "rmatch WordB p (l @ 64 # d @ 46 # tld @ post)
      = [(p, l @ 64 # d @ 46 # tld @ post)]"
    by (simp add: at_boundary_def)
  with s1 show ?thesis by (simp add: email_re_def first_match_def)
qed


lemma min_len_email: "min_len email_re = 6"
  by (simp add: email_re_def)

lemma min_len_phone: "min_len phone_re = 5"
  by (simp add: phone_re_def)

lemma no_boundary_phone: "no_boundary phone_re"
  by (simp add: phone_re_def)


lemma rejects_phone:
  "\<not> is_dsep b \<Longrightarrow> b \<noteq> 43 \<Longrightarrow> b \<noteq> 40 \<Longrightarrow> b \<noteq> 41 \<Longrightarrow> rejects phone_re b"
  by (auto simp: phone_re_def class_defs)

lemma rep_head:
  assumes "list_all P u" and "u \<noteq> []" and "mn \<le> length u" and "s = [] \<or> \<not> P (hd s)"
    and "\<forall>m. mx = Some m \<longrightarrow> length u \<le> m"
  shows "\<exists>rest. rep P mn mx p (u @ s) = (Some (last u), s) # rest"
  using rep_then_first [where K = "\<lambda>st. [st]" and ?u2.0 = "[]" and ?u1.0 = u and P = P
      and s = s and mn = mn and mx = mx and p = p and st = "(Some (last u), s)" and rest = "[]"]
    assms
  by simp

lemma rep_head_full:
  "list_all P u \<Longrightarrow> u \<noteq> [] \<Longrightarrow>
   \<exists>rest. rep P mn (Some (length u)) p (u @ s) = (Some (last u), s) # rest"
proof (induction u arbitrary: mn p)
  case Nil
  then show ?case by simp
next
  case (Cons c u)
  from Cons.prems have c: "P c" and u: "list_all P u" by simp_all
  show ?case
  proof (cases "u = []")
    case True
    have "rep P (mn - 1) (Some 0) (Some c) s = [(Some c, s)]" by (cases s) simp_all
    with c True show ?thesis by simp
  next
    case False
    from Cons.IH [OF u False, of "mn - 1" "Some c"] obtain rest
      where "rep P (mn - 1) (Some (length u)) (Some c) (u @ s) = (Some (last u), s) # rest"
      by blast
    with c False show ?thesis by simp
  qed
qed

lemma phone_first_match:
  assumes "list_all is_sep run" and "5 \<le> length run" and "length run \<le> 15"
    and "length run = 15 \<or> post = [] \<or> \<not> is_dsep (hd post)"
  shows "first_match phone_re p (run @ post) = Some (Some (last run), post)"
proof -
  from assms(2) obtain c run' where run: "run = c # run'" by (cases run) auto
  with assms(1) have c: "is_sep c" by simp
  then have nd: "\<not> is_digit c" and np: "\<not> is_plus c" and nl: "\<not> is_lparen c"
    by (auto simp: class_defs)
  have dsep: "list_all is_dsep run"
    using assms(1) by (auto simp: list_all_iff is_dsep_def is_sep_def)
  have g1: "rmatch (Opt (Seq (Opt (Cls is_plus)) (Seq (Rep is_digit 1 (Some 3)) (Opt (Cls is_sep)))))
      p (c # run' @ post) = [(p, c # run' @ post)]"
    using nd np by simp
  have g2: "rmatch (Opt (Seq (Opt (Cls is_lparen)) (Seq (Rep is_digit 2 (Some 4))
                   (Seq (Opt (Cls is_rparen)) (Opt (Cls is_sep))))))
      p (c # run' @ post) = [(p, c # run' @ post)]"
    using nd nl by simp
  have "\<exists>rest. rep is_dsep 5 (Some 15) p (run @ post) = (Some (last run), post) # rest"
  proof (cases "length run = 15")
    case True
    from run have ne: "run \<noteq> []" by simp
    from rep_head_full [OF dsep ne, of 5 p post] show ?thesis unfolding True .
  next
    case False
    with assms(4) have "post = [] \<or> \<not> is_dsep (hd post)" by simp
    from rep_head [OF dsep _ assms(2) this, of "Some 15" p] assms(3) run show ?thesis by auto
  qed
  then obtain rest where "rep is_dsep 5 (Some 15) p (run @ post) = (Some (last run), post) # rest"
    by blast
  with g1 g2 run show ?thesis
    by (simp add: phone_re_def first_match_def del: rep.simps)
qed

lemma rep_extend:
  "st \<in> set (rep P mn mx p x) \<Longrightarrow> behind z st \<in> set (rep P mn mx p (x @ z))"
proof (induction x arbitrary: mn mx p)
  case Nil
  then show ?case by (cases z) (auto split: if_splits)
next
  case (Cons c x)
  show ?case
  proof (cases "mx = Some 0")
    case True
    with Cons.prems show ?thesis by simp
  next
    case False
    from Cons.prems False consider
        (step) "P c" "st \<in> set (rep P (mn - 1) (map_option (\<lambda>k. k - 1) mx) (Some c) x)"
      | (stop) "mn = 0" "st = (p, c # x)"
      by (auto split: if_splits)
    then show ?thesis
    proof cases
      case step
      from Cons.IH [OF step(2)] step(1) False show ?thesis by simp
    next
      case stop
      with False show ?thesis by simp
    qed
  qed
qed

lemma rmatch_extend:
  "no_boundary r \<Longrightarrow> st \<in> set (rmatch r p x) \<Longrightarrow> behind z st \<in> set (rmatch r p (x @ z))"
proof (induction r arbitrary: p x st)
  case (Cls P)
  then show ?case by (cases x) (auto split: if_splits)
next
  case WordB
  then show ?case by simp
next
  case (Seq r1 r2)
  from Seq.prems(1) have n1: "no_boundary r1" and n2: "no_boundary r2" by simp_all
  from Seq.prems(2) obtain p1 s1 where a: "(p1, s1) \<in> set (rmatch r1 p x)"
    and b: "st \<in> set (rmatch r2 p1 s1)" by auto
  from Seq.IH(1) [OF n1 a, of ] have "(p1, s1 @ z) \<in> set (rmatch r1 p (x @ z))" by simp
  moreover from Seq.IH(2) [OF n2 b] have "behind z st \<in> set (rmatch r2 p1 (s1 @ z))" .
  ultimately show ?case by force
next
  case (Opt r)
  from Opt.prems(2) consider
      (took) "st \<in> set (rmatch r p x)" "length (snd st) \<noteq> length x"
    | (skip) "st = (p, x)"
    by auto
  then show ?case
  proof cases
    case took
    from Opt.IH [OF _ took(1)] Opt.prems(1) have "behind z st \<in> set (rmatch r p (x @ z))" by simp
    with took(2) show ?thesis by (auto simp: case_prod_unfold)
  next
    case skip
    then show ?thesis by simp
  qed
next
  case (Rep P mn mx)
  then show ?case by (simp add: rep_extend)
qed

lemma first_match_extend:
  assumes "no_boundary r" and "first_match r p (x @ z) = None"
  shows "first_match r q x = None"
proof (rule ccontr)
  assume "first_match r q x \<noteq> None"
  then obtain st rest where "rmatch r q x = st # rest"
    by (auto simp: first_match_def split: list.splits)
  then have "map snd (rmatch r p x) \<noteq> []"
    using rmatch_prev_irrelevant [OF assms(1), of p x q] by auto
  then obtain st' where "st' \<in> set (rmatch r p x)" by (cases "rmatch r p x") auto
  from rmatch_extend [OF assms(1) this, of z] assms(2) show False
    by (auto simp: first_match_def split: list.splits)
qed

lemma replace_all_shape:
  assumes "0 < min_len r"
  shows "(replace_all r new p s = s \<and> match_free r p s)
       \<or> (\<exists>u v y. s = u @ v \<and> replace_all r new p s = u @ new @ y)"
proof (induction s arbitrary: p)
  case Nil
  then show ?case by (simp add: first_match_Nil [OF assms])
next
  case (Cons c s)
  show ?case
  proof (cases "first_match r p (c # s)")
    case None
    from Cons.IH [of "Some c"] show ?thesis
    proof
      assume "replace_all r new (Some c) s = s \<and> match_free r (Some c) s"
      with None show ?thesis by simp
    next
      assume "\<exists>u v y. s = u @ v \<and> replace_all r new (Some c) s = u @ new @ y"
      then obtain u v y where "s = u @ v" "replace_all r new (Some c) s = u @ new @ y" by blast
      with None have "c # s = (c # u) @ v \<and> replace_all r new p (c # s) = (c # u) @ new @ y"
        by simp
      then show ?thesis by blast
    qed
  next
    case (Some st)
    obtain p' s' where st: "st = (p', s')" by (cases st)
    from Some st have fm: "first_match r p (c # s) = Some (p', s')" by simp
    from first_match_shorter [OF assms fm] have "length s' < length (c # s)" .
    with fm have "c # s = [] @ (c # s) \<and> replace_all r new p (c # s) = [] @ new @ replace_all r new p' s'"
      by simp
    then show ?thesis by blast
  qed
qed

lemma match_free_blockers:
  assumes "0 < min_len r" and "\<forall>c \<in> set w. rejects r c"
    and "match_free r (if w = [] then p else Some (last w)) y"
  shows "match_free r p (w @ y)"
  using assms(2,3)
proof (induction w arbitrary: p)
  case Nil
  then show ?case by simp
next
  case (Cons b w)
  from Cons.prems(1) have b: "rejects r b" by simp
  have "first_match r p ([] @ b # w @ y) = None"
    using first_match_blocked [OF b, of p "[]" "w @ y"] first_match_Nil [OF assms(1), of p] by simp
  moreover have "match_free r (Some b) (w @ y)"
    using Cons.IH [of "Some b"] Cons.prems by (cases "w = []") auto
  ultimately show ?case by simp
qed

lemma replace_all_clean:
  assumes "no_boundary r" and "0 < min_len r" and "new \<noteq> []" and "\<forall>c \<in> set new. rejects r c"
  shows "match_free r q (replace_all r new p s)"
  using assms
proof (induction r new p s arbitrary: q rule: replace_all.induct)
  case (1 r new p)
  then show ?case by (simp add: first_match_Nil)
next
  case (2 r new p c s)
  note nb = "2.prems"(1) and ml = "2.prems"(2) and ne = "2.prems"(3) and rj = "2.prems"(4)
  show ?case
  proof (cases "first_match r p (c # s)")
    case None
    have tail: "match_free r (Some c) (replace_all r new (Some c) s)"
      by (rule "2.IH"(1) [OF None nb ml ne rj])
    have head: "first_match r q (c # replace_all r new (Some c) s) = None"
      using replace_all_shape [OF ml, of new "Some c" s]
    proof
      assume "replace_all r new (Some c) s = s \<and> match_free r (Some c) s"
      moreover have "first_match r q (c # s) = None"
        using first_match_extend [OF nb, of p "c # s" "[]" q] None by simp
      ultimately show ?thesis by simp
    next
      assume "\<exists>u v y. s = u @ v \<and> replace_all r new (Some c) s = u @ new @ y"
      then obtain u v y where s: "s = u @ v" and out: "replace_all r new (Some c) s = u @ new @ y"
        by blast
      from ne obtain b new' where new: "new = b # new'" by (cases new) auto
      with rj have b: "rejects r b" by simp
      have "first_match r q (c # u) = None"
        using first_match_extend [OF nb, of p "c # u" v q] None s by simp
      then have "first_match r q ((c # u) @ b # new' @ y) = None"
        using first_match_blocked [OF b, of q "c # u" "new' @ y"] by simp
      with out new show ?thesis by simp
    qed
    from None head tail show ?thesis by simp
  next
    case (Some st)
    obtain p' s' where st: "st = (p', s')" by (cases st)
    from Some st have fm: "first_match r p (c # s) = Some (p', s')" by simp
    from first_match_shorter [OF ml fm] have len: "length s' < length (c # s)" .
    have "match_free r (Some (last new)) (replace_all r new p' s')"
      by (rule "2.IH"(2) [OF fm refl len nb ml ne rj])
    with ne have "match_free r q (new @ replace_all r new p' s')"
      by (intro match_free_blockers [OF ml rj]) simp
    with fm len show ?thesis by simp
  qed
qed

lemma phone_marker_rejected: "\<forall>c \<in> set (js ''[phone]''). rejects phone_re c"
  by (simp add: js_def phone_re_def class_defs)

lemma phone_pass_clean: "match_free phone_re q (replace_all phone_re (js ''[phone]'') p s)"
  by (rule replace_all_clean [OF no_boundary_phone _ _ phone_marker_rejected])
     (simp_all add: min_len_phone js_def)

lemma rep_consumed:
  "(p', s') \<in> set (rep P mn mx p s) \<Longrightarrow> \<exists>u. s = u @ s' \<and> list_all P u"
proof (induction s arbitrary: mn mx p)
  case Nil
  then show ?case by (auto split: if_splits)
next
  case (Cons c s)
  from Cons.prems consider
      (stay) "(p', s') = (p, c # s)"
    | (step) "P c" "(p', s') \<in> set (rep P (mn - 1) (map_option (\<lambda>k. k - 1) mx) (Some c) s)"
    by (auto split: if_splits)
  then show ?case
  proof cases
    case stay
    then show ?thesis by simp
  next
    case step
    from Cons.IH [OF step(2)] obtain u where "s = u @ s'" "list_all P u" by blast
    with step(1) have "c # s = (c # u) @ s' \<and> list_all P (c # u)" by simp
    then show ?thesis by blast
  qed
qed

lemma rmatch_consumed:
  "no_boundary r \<Longrightarrow> (p', s') \<in> set (rmatch r p s)
   \<Longrightarrow> \<exists>u. s = u @ s' \<and> (\<forall>c \<in> set u. \<not> rejects r c)"
proof (induction r arbitrary: p s p' s')
  case (Cls P)
  then show ?case by (auto split: list.splits if_splits)
next
  case WordB
  then show ?case by simp
next
  case (Seq r1 r2)
  from Seq.prems(1) have n1: "no_boundary r1" and n2: "no_boundary r2" by simp_all
  from Seq.prems(2) obtain p1 s1 where a: "(p1, s1) \<in> set (rmatch r1 p s)"
    and b: "(p', s') \<in> set (rmatch r2 p1 s1)" by auto
  from Seq.IH(1) [OF n1 a] obtain u1 where u1: "s = u1 @ s1" "\<forall>c \<in> set u1. \<not> rejects r1 c" by blast
  from Seq.IH(2) [OF n2 b] obtain u2 where u2: "s1 = u2 @ s'" "\<forall>c \<in> set u2. \<not> rejects r2 c" by blast
  from u1 u2 have "s = (u1 @ u2) @ s' \<and> (\<forall>c \<in> set (u1 @ u2). \<not> rejects (Seq r1 r2) c)" by auto
  then show ?case by blast
next
  case (Opt r)
  from Opt.prems(2) have "(p', s') \<in> set (rmatch r p s) \<or> (p', s') = (p, s)" by auto
  then show ?case
  proof
    assume "(p', s') \<in> set (rmatch r p s)"
    from Opt.IH [OF _ this] Opt.prems(1) show ?thesis by simp
  next
    assume "(p', s') = (p, s)"
    then show ?thesis by simp
  qed
next
  case (Rep P mn mx)
  then show ?case using rep_consumed [of p' s' P mn mx p s] by (auto simp: list_all_iff)
qed

lemma count_replace_all_rejected:
  assumes "no_boundary r" and "rejects r b" and "b \<notin> set new"
  shows "count_list (replace_all r new p s) b = count_list s b"
  using assms
proof (induction r new p s rule: replace_all.induct)
  case (1 r new p)
  then show ?case by (auto split: option.splits)
next
  case (2 r new p c s)
  show ?case
  proof (cases "first_match r p (c # s)")
    case None
    with "2.IH"(1) [OF None "2.prems"] show ?thesis by auto
  next
    case (Some st)
    obtain p' s' where st: "st = (p', s')" by (cases st)
    from Some st have fm: "first_match r p (c # s) = Some (p', s')" by simp
    then have "(p', s') \<in> set (rmatch r p (c # s))"
      by (auto simp: first_match_def split: list.splits)
    from rmatch_consumed [OF "2.prems"(1) this] "2.prems"(2)
    obtain u where u: "c # s = u @ s'" "b \<notin> set u" by blast
    show ?thesis
    proof (cases "length s' < length (c # s)")
      case True
      have "count_list (c # s) b = count_list s' b"
        unfolding u(1) using u(2) by simp
      with fm True "2.IH"(2) [OF fm refl True "2.prems"] "2.prems"(3) show ?thesis by simp
    next
      case False
      with fm "2.IH"(3) [OF fm refl False "2.prems"] "2.prems"(3) show ?thesis by auto
    qed
  qed
qed

lemma rmatch_Seq_elim:
  assumes "st \<in> set (rmatch (Seq r1 r2) p s)"
  obtains p1 s1 where "(p1, s1) \<in> set (rmatch r1 p s)" and "st \<in> set (rmatch r2 p1 s1)"
  using assms by auto

lemma email_match_has_at:
  assumes "(p', s') \<in> set (rmatch email_re p s)"
  shows "\<exists>u. s = u @ s' \<and> 64 \<in> set u"
proof -
  let ?R3 = "Seq (Rep is_domain 1 None) (Seq (Cls is_dot) (Seq (Rep is_alpha 2 None) WordB))"
  let ?R2 = "Seq (Cls is_at) ?R3"
  let ?R1 = "Seq (Rep is_local 1 None) ?R2"
  from assms have "(p', s') \<in> set (rmatch (Seq WordB ?R1) p s)"
    by (simp only: email_re_def)
  then obtain p0 s0 where w: "(p0, s0) \<in> set (rmatch WordB p s)"
    and r1: "(p', s') \<in> set (rmatch ?R1 p0 s0)" by (rule rmatch_Seq_elim)
  from w have s0: "s0 = s" by (auto split: if_splits)
  from r1 obtain p1 s1 where l: "(p1, s1) \<in> set (rmatch (Rep is_local 1 None) p0 s0)"
    and r2: "(p', s') \<in> set (rmatch ?R2 p1 s1)" by (rule rmatch_Seq_elim)
  from rmatch_suffix [OF l] s0 obtain u1 where u1: "s = u1 @ s1" by blast
  from r2 obtain p2 s2 where at: "(p2, s2) \<in> set (rmatch (Cls is_at) p1 s1)"
    and r3: "(p', s') \<in> set (rmatch ?R3 p2 s2)" by (rule rmatch_Seq_elim)
  from at have s2: "s1 = 64 # s2" by (cases s1) (auto simp: is_at_def split: if_splits)
  from rmatch_suffix [OF r3] obtain u3 where "s2 = u3 @ s'" by blast
  with u1 s2 have "s = (u1 @ 64 # u3) @ s' \<and> 64 \<in> set (u1 @ 64 # u3)" by simp
  then show ?thesis by blast
qed

lemma count_email_pass:
  assumes "64 \<notin> set new"
  shows "count_list (replace_all email_re new p s) 64 \<le> count_list s 64
       \<and> (\<not> match_free email_re p s
            \<longrightarrow> count_list (replace_all email_re new p s) 64 < count_list s 64)"
proof (induction s arbitrary: p rule: length_induct)
  case (1 s)
  show ?case
  proof (cases s)
    case Nil
    then show ?thesis by (simp add: first_match_Nil min_len_email)
  next
    case (Cons c t)
    show ?thesis
    proof (cases "first_match email_re p (c # t)")
      case None
      with 1 Cons show ?thesis by simp
    next
      case (Some st)
      obtain p' s' where st: "st = (p', s')" by (cases st)
      from Some st have fm: "first_match email_re p (c # t) = Some (p', s')" by simp
      then have "(p', s') \<in> set (rmatch email_re p (c # t))"
        by (auto simp: first_match_def split: list.splits)
      from email_match_has_at [OF this] obtain u where u: "c # t = u @ s'" "64 \<in> set u" by blast
      have len: "length s' < length (c # t)"
        using first_match_shorter [OF _ fm] by (simp add: min_len_email)
      with 1 Cons have "count_list (replace_all email_re new p' s') 64 \<le> count_list s' 64"
        by simp
      moreover have "count_list u 64 \<noteq> 0"
        using u(2) by (simp add: count_list_0_iff)
      then have "count_list s' 64 < count_list (c # t) 64"
        unfolding u(1) by simp
      ultimately show ?thesis using fm len assms Cons by simp
    qed
  qed
qed

subsection \<open>The email rule around a delimited address\<close>

lemma redact_text_rules: "redact_text t = phone_rule (email_rule None t)"
  by (simp add: redact_text_def phone_rule_def email_rule_def)




lemma rep_prev_consumed: "0 < mn \<Longrightarrow> rep P mn None p s = rep P mn None q s"
  by (cases s) auto

lemma email_rule_prev_nonword:
  assumes "\<not> word_before p" and "\<not> word_before q"
  shows "email_rule p s = email_rule q s"
proof -
  have m: "rmatch email_re p s = rmatch email_re q s" for s
    using assms rep_prev_consumed [of 1 is_local p s q]
    by (simp add: email_re_def at_boundary_def)
  then have fm: "first_match email_re p s = first_match email_re q s" for s
    by (simp add: first_match_def)
  show ?thesis
    by (cases s) (simp_all add: email_rule_def fm)
qed

lemma email_rule_Nil: "email_rule p [] = []"
  by (simp add: email_rule_def first_match_Nil min_len_email)


lemma seq_passes:
  assumes "rmatch r1 p (x @ w) = map (behind w) (rmatch r1 p x)"
    and "\<And>p' s'. (p', s') \<in> set (rmatch r1 p x)
           \<Longrightarrow> rmatch r2 p' (s' @ w) = map (behind w) (rmatch r2 p' s')"
  shows "rmatch (Seq r1 r2) p (x @ w) = map (behind w) (rmatch (Seq r1 r2) p x)"
proof -
  have "rmatch (Seq r1 r2) p (x @ w)
      = concat (map (\<lambda>st. rmatch r2 (fst st) (snd st @ w)) (rmatch r1 p x))"
    by (simp add: assms(1) o_def case_prod_unfold)
  also have "\<dots> = concat (map (\<lambda>st. map (behind w) (rmatch r2 (fst st) (snd st))) (rmatch r1 p x))"
    by (rule arg_cong [where f = concat], rule map_cong [OF refl]) (simp add: assms(2))
  also have "\<dots> = map (behind w) (rmatch (Seq r1 r2) p x)"
    by (simp add: map_concat o_def case_prod_unfold)
  finally show ?thesis .
qed

lemma opt_passes:
  assumes "rmatch r p (x @ w) = map (behind w) (rmatch r p x)"
  shows "rmatch (Opt r) p (x @ w) = map (behind w) (rmatch (Opt r) p x)"
  by (simp add: assms filter_map o_def case_prod_unfold)

lemma first_match_passes:
  "rmatch r p (x @ w) = map (behind w) (rmatch r p x)
   \<Longrightarrow> first_match r p (x @ w) = map_option (behind w) (first_match r p x)"
  by (simp add: first_match_def split: list.splits)

lemma replace_all_passes:
  assumes "0 < min_len r"
    and "\<And>p' u x'. x = u @ x' \<Longrightarrow> rmatch r p' (x' @ b # y) = map (behind (b # y)) (rmatch r p' x')"
  shows "replace_all r new p (x @ b # y) = replace_all r new p x @ b # replace_all r new (Some b) y"
  using assms
proof (induction r new p x rule: replace_all.induct)
  case (1 r new p)
  have "first_match r p ([] @ b # y) = map_option (behind (b # y)) (first_match r p [])"
    by (rule first_match_passes) (rule "1.prems"(2), simp)
  then show ?case by (simp add: first_match_Nil [OF "1.prems"(1)])
next
  case (2 r new p c s)
  have fmp: "first_match r p ((c # s) @ b # y) = map_option (behind (b # y)) (first_match r p (c # s))"
    by (rule first_match_passes) (rule "2.prems"(2), simp)
  show ?case
  proof (cases "first_match r p (c # s)")
    case None
    then have "first_match r p (c # s @ b # y) = None"
      using fmp by simp
    moreover have "replace_all r new (Some c) (s @ b # y)
        = replace_all r new (Some c) s @ b # replace_all r new (Some b) y"
    proof (rule "2.IH"(1) [OF None "2.prems"(1)])
      fix p' u x' assume "s = u @ x'"
      then have "c # s = (c # u) @ x'" by simp
      then show "rmatch r p' (x' @ b # y) = map (behind (b # y)) (rmatch r p' x')"
        by (rule "2.prems"(2))
    qed
    ultimately show ?thesis using None by simp
  next
    case (Some st)
    obtain p' s' where st: "st = (p', s')" by (cases st)
    from Some st have fm: "first_match r p (c # s) = Some (p', s')" by simp
    from first_match_shorter [OF "2.prems"(1) fm] have len: "length s' < length (c # s)" .
    from first_match_suffix [OF fm] obtain v where v: "c # s = v @ s'" by blast
    have fm': "first_match r p (c # s @ b # y) = Some (p', s' @ b # y)"
      using fmp fm by simp
    have "replace_all r new p' (s' @ b # y)
        = replace_all r new p' s' @ b # replace_all r new (Some b) y"
    proof (rule "2.IH"(2) [OF fm refl len "2.prems"(1)])
      fix q u x' assume "s' = u @ x'"
      then have "c # s = (v @ u) @ x'" using v by simp
      then show "rmatch r q (x' @ b # y) = map (behind (b # y)) (rmatch r q x')"
        by (rule "2.prems"(2))
    qed
    with fm fm' len show ?thesis by simp
  qed
qed









subsection \<open>Occurrences of a text in the output of the global replace\<close>





subsection \<open>The phone rule around a code unit it does not take\<close>

lemma opt_cls_passes:
  "x \<noteq> [] \<Longrightarrow> rmatch (Opt (Cls Q)) p (x @ w) = map (behind w) (rmatch (Opt (Cls Q)) p x)"
  by (cases x) auto

lemma opt_cls_seq_passes:
  assumes "rejects r b" and "\<And>q. rmatch r q z = []"
  shows "rmatch (Seq (Opt (Cls Q)) r) p (x @ b # z)
       = map (behind (b # z)) (rmatch (Seq (Opt (Cls Q)) r) p x)"
proof (cases "x = []")
  case True
  then show ?thesis
    using rmatch_blocked [OF assms(1), of p "[]" z] assms(2) by simp
next
  case False
  show ?thesis
    by (rule seq_passes) (rule opt_cls_passes [OF False], rule rmatch_blocked [OF assms(1)])
qed

lemma rep_all_consumed:
  assumes "(q, []) \<in> set (rep P 2 (Some 4) p s)"
  shows "\<exists>u d1 d2. s = u @ [d1, d2] \<and> P d1 \<and> P d2"
proof -
  from rep_consumed [OF assms] have all: "list_all P s" by simp
  from rep_min_len [OF assms] have "2 \<le> length s" by simp
  then have "s \<noteq> []" by auto
  then obtain s' d2 where s': "s = s' @ [d2]" by (metis rev_exhaust)
  with \<open>2 \<le> length s\<close> have "s' \<noteq> []" by auto
  then obtain u d1 where "s' = u @ [d1]" by (metis rev_exhaust)
  with s' have s: "s = u @ [d1, d2]" by simp
  with all show ?thesis by auto
qed

lemma phone_group_one_passes:
  assumes "b = 43 \<or> b = 40 \<or> b = 41" and "z = [] \<or> \<not> is_digit (hd z)"
  shows "rmatch (Seq (Opt (Cls is_plus)) (Seq (Rep is_digit 1 (Some 3)) (Opt (Cls is_sep)))) p (x @ b # z)
       = map (behind (b # z))
           (rmatch (Seq (Opt (Cls is_plus)) (Seq (Rep is_digit 1 (Some 3)) (Opt (Cls is_sep)))) p x)"
proof (rule opt_cls_seq_passes)
  show "rejects (Seq (Rep is_digit 1 (Some 3)) (Opt (Cls is_sep))) b"
    using assms(1) by (auto simp: class_defs)
  show "rmatch (Seq (Rep is_digit 1 (Some 3)) (Opt (Cls is_sep))) q z = []" for q
    using assms(2) by (cases z) auto
qed

lemma phone_group_two_passes:
  assumes "b = 43 \<or> b = 40 \<or> b = 41" and "z = [] \<or> \<not> is_digit (hd z)"
    and "b = 41 \<longrightarrow> \<not> (\<exists>u d1 d2. x = u @ [d1, d2] \<and> is_digit d1 \<and> is_digit d2)"
  shows "rmatch (Seq (Opt (Cls is_lparen)) (Seq (Rep is_digit 2 (Some 4))
                   (Seq (Opt (Cls is_rparen)) (Opt (Cls is_sep))))) p (x @ b # z)
       = map (behind (b # z))
           (rmatch (Seq (Opt (Cls is_lparen)) (Seq (Rep is_digit 2 (Some 4))
                   (Seq (Opt (Cls is_rparen)) (Opt (Cls is_sep))))) p x)"
proof (cases "b = 41")
  case False
  show ?thesis
  proof (rule opt_cls_seq_passes)
    show "rejects (Seq (Rep is_digit 2 (Some 4)) (Seq (Opt (Cls is_rparen)) (Opt (Cls is_sep)))) b"
      using assms(1) False by (auto simp: class_defs)
    show "rmatch (Seq (Rep is_digit 2 (Some 4)) (Seq (Opt (Cls is_rparen)) (Opt (Cls is_sep)))) q z = []"
      for q
      using assms(2) by (cases z) auto
  qed
next
  case True
  with assms(3) have g: "\<not> (\<exists>u d1 d2. x = u @ [d1, d2] \<and> is_digit d1 \<and> is_digit d2)" by simp
  have digit: "\<not> is_digit b" and lparen: "\<not> is_lparen b" and sep: "\<not> is_sep b"
    using True by (simp_all add: class_defs)
  show ?thesis
  proof (rule seq_passes)
    show "rmatch (Opt (Cls is_lparen)) p (x @ b # z)
        = map (behind (b # z)) (rmatch (Opt (Cls is_lparen)) p x)"
      by (rule rmatch_blocked) (simp add: lparen)
  next
    fix p1 s1 assume "(p1, s1) \<in> set (rmatch (Opt (Cls is_lparen)) p x)"
    from rmatch_suffix [OF this] obtain v where v: "x = v @ s1" by blast
    have g1: "\<not> (\<exists>u d1 d2. s1 = u @ [d1, d2] \<and> is_digit d1 \<and> is_digit d2)"
    proof
      assume "\<exists>u d1 d2. s1 = u @ [d1, d2] \<and> is_digit d1 \<and> is_digit d2"
      then obtain u d1 d2 where "s1 = u @ [d1, d2]" "is_digit d1" "is_digit d2" by blast
      with v have "x = (v @ u) @ [d1, d2] \<and> is_digit d1 \<and> is_digit d2" by simp
      with g show False by blast
    qed
    show "rmatch (Seq (Rep is_digit 2 (Some 4)) (Seq (Opt (Cls is_rparen)) (Opt (Cls is_sep))))
            p1 (s1 @ b # z)
        = map (behind (b # z))
            (rmatch (Seq (Rep is_digit 2 (Some 4)) (Seq (Opt (Cls is_rparen)) (Opt (Cls is_sep))))
               p1 s1)"
    proof (rule seq_passes)
      show "rmatch (Rep is_digit 2 (Some 4)) p1 (s1 @ b # z)
          = map (behind (b # z)) (rmatch (Rep is_digit 2 (Some 4)) p1 s1)"
        by (rule rmatch_blocked) (simp add: digit)
    next
      fix p2 s2 assume "(p2, s2) \<in> set (rmatch (Rep is_digit 2 (Some 4)) p1 s1)"
      then have m: "(p2, s2) \<in> set (rep is_digit 2 (Some 4) p1 s1)" by simp
      have ne: "s2 \<noteq> []"
      proof
        assume "s2 = []"
        with m rep_all_consumed [of p2 is_digit p1 s1] g1 show False by blast
      qed
      show "rmatch (Seq (Opt (Cls is_rparen)) (Opt (Cls is_sep))) p2 (s2 @ b # z)
          = map (behind (b # z)) (rmatch (Seq (Opt (Cls is_rparen)) (Opt (Cls is_sep))) p2 s2)"
        by (rule seq_passes, rule opt_cls_passes [OF ne], rule rmatch_blocked) (simp add: sep)
    qed
  qed
qed

lemma phone_passes:
  assumes "\<not> is_dsep b" and "z = [] \<or> \<not> is_digit (hd z)"
    and "b = 41 \<longrightarrow> \<not> (\<exists>u d1 d2. x = u @ [d1, d2] \<and> is_digit d1 \<and> is_digit d2)"
  shows "rmatch phone_re p (x @ b # z) = map (behind (b # z)) (rmatch phone_re p x)"
proof (cases "b = 43 \<or> b = 40 \<or> b = 41")
  case False
  with assms(1) show ?thesis by (intro rmatch_blocked rejects_phone) simp_all
next
  case True
  have suffix: "\<not> (\<exists>u d1 d2. s1 = u @ [d1, d2] \<and> is_digit d1 \<and> is_digit d2)"
    if "b = 41" and "x = v @ s1" for v s1
  proof
    assume "\<exists>u d1 d2. s1 = u @ [d1, d2] \<and> is_digit d1 \<and> is_digit d2"
    then obtain u d1 d2 where "s1 = u @ [d1, d2]" "is_digit d1" "is_digit d2" by blast
    with that have "x = (v @ u) @ [d1, d2] \<and> is_digit d1 \<and> is_digit d2" by simp
    with assms(3) that(1) show False by blast
  qed
  show ?thesis
    unfolding phone_re_def
  proof (rule seq_passes)
    show "rmatch (Opt (Seq (Opt (Cls is_plus)) (Seq (Rep is_digit 1 (Some 3)) (Opt (Cls is_sep)))))
            p (x @ b # z)
        = map (behind (b # z))
            (rmatch (Opt (Seq (Opt (Cls is_plus)) (Seq (Rep is_digit 1 (Some 3)) (Opt (Cls is_sep)))))
               p x)"
      by (rule opt_passes) (rule phone_group_one_passes [OF True assms(2)])
  next
    fix p1 s1
    assume "(p1, s1) \<in> set (rmatch (Opt (Seq (Opt (Cls is_plus))
        (Seq (Rep is_digit 1 (Some 3)) (Opt (Cls is_sep))))) p x)"
    from rmatch_suffix [OF this] obtain v where v: "x = v @ s1" by blast
    show "rmatch (Seq (Opt (Seq (Opt (Cls is_lparen)) (Seq (Rep is_digit 2 (Some 4))
                   (Seq (Opt (Cls is_rparen)) (Opt (Cls is_sep))))))
            (Rep is_dsep 5 (Some 15))) p1 (s1 @ b # z)
        = map (behind (b # z))
            (rmatch (Seq (Opt (Seq (Opt (Cls is_lparen)) (Seq (Rep is_digit 2 (Some 4))
                   (Seq (Opt (Cls is_rparen)) (Opt (Cls is_sep))))))
            (Rep is_dsep 5 (Some 15))) p1 s1)"
    proof (rule seq_passes)
      show "rmatch (Opt (Seq (Opt (Cls is_lparen)) (Seq (Rep is_digit 2 (Some 4))
                   (Seq (Opt (Cls is_rparen)) (Opt (Cls is_sep)))))) p1 (s1 @ b # z)
          = map (behind (b # z))
              (rmatch (Opt (Seq (Opt (Cls is_lparen)) (Seq (Rep is_digit 2 (Some 4))
                   (Seq (Opt (Cls is_rparen)) (Opt (Cls is_sep)))))) p1 s1)"
        by (rule opt_passes, rule phone_group_two_passes [OF True assms(2)])
           (use suffix [OF _ v] in blast)
    next
      fix p2 s2
      show "rmatch (Rep is_dsep 5 (Some 15)) p2 (s2 @ b # z)
          = map (behind (b # z)) (rmatch (Rep is_dsep 5 (Some 15)) p2 s2)"
        by (rule rmatch_blocked) (simp add: assms(1))
    qed
  qed
qed

lemma phone_rule_passes:
  assumes "\<not> is_dsep b" and "z = [] \<or> \<not> is_digit (hd z)"
    and "b = 41 \<longrightarrow> \<not> (\<exists>u d1 d2. x = u @ [d1, d2] \<and> is_digit d1 \<and> is_digit d2)"
  shows "replace_all phone_re new p (x @ b # z)
       = replace_all phone_re new p x @ b # replace_all phone_re new (Some b) z"
proof (rule replace_all_passes)
  show "0 < min_len phone_re" by (simp add: min_len_phone)
next
  fix p' u x' assume x: "x = u @ x'"
  have "b = 41 \<longrightarrow> \<not> (\<exists>v d1 d2. x' = v @ [d1, d2] \<and> is_digit d1 \<and> is_digit d2)"
  proof (intro impI notI)
    assume b: "b = 41" and "\<exists>v d1 d2. x' = v @ [d1, d2] \<and> is_digit d1 \<and> is_digit d2"
    then obtain v d1 d2 where "x' = v @ [d1, d2]" "is_digit d1" "is_digit d2" by blast
    with x have "x = (u @ v) @ [d1, d2] \<and> is_digit d1 \<and> is_digit d2" by simp
    with assms(3) b show False by blast
  qed
  then show "rmatch phone_re p' (x' @ b # z) = map (behind (b # z)) (rmatch phone_re p' x')"
    by (rule phone_passes [OF assms(1,2)])
qed

lemma phone_pass_run:
  assumes "list_all is_sep run" and "5 \<le> length run" and "length run \<le> 15"
    and "length run = 15 \<or> post = [] \<or> \<not> is_dsep (hd post)"
  shows "replace_all phone_re new p (run @ post) = new @ replace_all phone_re new None post"
proof -
  from assms(2) obtain c run' where run: "run = c # run'" by (cases run) auto
  have fm: "first_match phone_re p (c # run' @ post) = Some (Some (last run), post)"
    using phone_first_match [OF assms, of p] run by simp
  have "replace_all phone_re new (Some (last run)) post = replace_all phone_re new None post"
    by (rule replace_all_prev_irrelevant [OF no_boundary_phone])
  with fm run show ?thesis by simp
qed


subsection \<open>What the global replace keeps of the ends of a text\<close>

lemma replace_all_unmarked:
  "0 < min_len r \<Longrightarrow> new \<noteq> [] \<Longrightarrow> set (replace_all r new p s) \<inter> set new = {}
   \<Longrightarrow> replace_all r new p s = s"
proof (induction r new p s rule: replace_all.induct)
  case (1 r new p)
  then show ?case by (simp add: first_match_Nil)
next
  case (2 r new p c s)
  show ?case
  proof (cases "first_match r p (c # s)")
    case None
    with "2.prems"(3) have "set (replace_all r new (Some c) s) \<inter> set new = {}" by simp
    from "2.IH"(1) [OF None "2.prems"(1,2) this] None show ?thesis by simp
  next
    case (Some st)
    then have "\<exists>t. replace_all r new p (c # s) = new @ t" by (cases st) simp
    then obtain t where "replace_all r new p (c # s) = new @ t" by blast
    with "2.prems"(3) have "set new \<inter> set new = {}" by auto
    with "2.prems"(2) show ?thesis by simp
  qed
qed

lemma replace_all_keeps_suffix:
  "0 < min_len r \<Longrightarrow> new \<noteq> [] \<Longrightarrow> replace_all r new p s = a @ k \<Longrightarrow> set k \<inter> set new = {}
   \<Longrightarrow> \<exists>a'. s = a' @ k"
proof (induction r new p s arbitrary: a rule: replace_all.induct)
  case (1 r new p)
  then show ?case by (simp add: first_match_Nil)
next
  case (2 r new p c s)
  show ?case
  proof (cases "first_match r p (c # s)")
    case None
    with "2.prems"(3) have out: "c # replace_all r new (Some c) s = a @ k" by simp
    show ?thesis
    proof (cases a)
      case Nil
      with out have k: "k = c # replace_all r new (Some c) s" by simp
      with "2.prems"(4) have "set (replace_all r new (Some c) s) \<inter> set new = {}" by auto
      from replace_all_unmarked [OF "2.prems"(1,2) this] k have "c # s = [] @ k" by simp
      then show ?thesis by blast
    next
      case (Cons a0 a1)
      with out have "replace_all r new (Some c) s = a1 @ k" by auto
      from "2.IH"(1) [OF None "2.prems"(1,2) this "2.prems"(4)]
      obtain a' where "s = a' @ k" by blast
      then have "c # s = (c # a') @ k" by simp
      then show ?thesis by blast
    qed
  next
    case (Some st)
    obtain p' s' where st: "st = (p', s')" by (cases st)
    from Some st have fm: "first_match r p (c # s) = Some (p', s')" by simp
    from first_match_shorter [OF "2.prems"(1) fm] have len: "length s' < length (c # s)" .
    from first_match_suffix [OF fm] obtain v where v: "c # s = v @ s'" by blast
    from fm len "2.prems"(3) have "a @ k = new @ replace_all r new p' s'" by simp
    from append_eq_append_conv2 [THEN iffD1, OF this]
    consider (long) u where "a = new @ u" "u @ k = replace_all r new p' s'"
      | (short) u where "a @ u = new" "k = u @ replace_all r new p' s'"
      by blast
    then have "\<exists>u. replace_all r new p' s' = u @ k"
    proof cases
      case long
      then show ?thesis by metis
    next
      case short
      then have "set u \<subseteq> set new" "set u \<subseteq> set k" by auto
      with "2.prems"(4) have "u = []" by (cases u) auto
      with short have "replace_all r new p' s' = [] @ k" by simp
      then show ?thesis by blast
    qed
    then obtain u where "replace_all r new p' s' = u @ k" by blast
    from "2.IH"(2) [OF fm refl len "2.prems"(1,2) this "2.prems"(4)]
    obtain a' where "s' = a' @ k" by blast
    with v have "c # s = (v @ a') @ k" by simp
    then show ?thesis by blast
  qed
qed

lemma replace_all_head:
  "0 < min_len r \<Longrightarrow> new \<noteq> [] \<Longrightarrow>
   \<exists>t. replace_all r new p (c # s) = c # t \<or> replace_all r new p (c # s) = hd new # t"
proof (cases "first_match r p (c # s)")
  case None
  then have "replace_all r new p (c # s) = c # replace_all r new (Some c) s" by simp
  then show ?thesis by blast
next
  case (Some st)
  assume "new \<noteq> []"
  then obtain n0 n1 where "new = n0 # n1" by (cases new) auto
  with Some show ?thesis by (cases st) auto
qed

lemma email_marker_class:
  "c \<in> set (js ''[email]'') \<Longrightarrow> \<not> is_dsep c \<and> \<not> is_digit c \<and> c \<noteq> 41"
  by (auto simp: js_def class_defs)

lemma email_rule_last:
  assumes "pre = [] \<or> \<not> is_dsep (last pre)" and "email_rule None pre = x @ [b]"
  shows "\<not> is_dsep b"
proof (cases "b \<in> set (js ''[email]'')")
  case True
  then show ?thesis by (simp add: email_marker_class)
next
  case False
  then have "set [b] \<inter> set (js ''[email]'') = {}" by simp
  from replace_all_keeps_suffix [OF _ _ assms(2) [unfolded email_rule_def] this]
  obtain a' where "pre = a' @ [b]" by (auto simp: min_len_email js_def)
  with assms(1) show ?thesis by simp
qed

lemma email_rule_digits_rparen:
  assumes "\<not> ends_digits_rparen pre" and "email_rule None pre = x @ [41]"
  shows "\<not> (\<exists>u d1 d2. x = u @ [d1, d2] \<and> is_digit d1 \<and> is_digit d2)"
proof
  assume "\<exists>u d1 d2. x = u @ [d1, d2] \<and> is_digit d1 \<and> is_digit d2"
  then obtain u d1 d2 where x: "x = u @ [d1, d2]" and d: "is_digit d1" "is_digit d2" by blast
  have free: "set [d1, d2, 41] \<inter> set (js ''[email]'') = {}"
    using d email_marker_class by auto
  from assms(2) x have "replace_all email_re (js ''[email]'') None pre = u @ [d1, d2, 41]"
    by (simp add: email_rule_def)
  from replace_all_keeps_suffix [OF _ _ this free]
  obtain a' where "pre = a' @ [d1, d2, 41]" by (auto simp: min_len_email js_def)
  with d have "ends_digits_rparen pre" by (simp add: ends_digits_rparen_def is_rparen_def)
  with assms(1) show False by simp
qed

lemma email_rule_first:
  assumes "post = [] \<or> \<not> is_dsep (hd post)"
  shows "email_rule None post = [] \<or> \<not> is_dsep (hd (email_rule None post))"
proof (cases post)
  case Nil
  then show ?thesis by (simp add: email_rule_Nil)
next
  case (Cons c s)
  from replace_all_head [of email_re "js ''[email]''" None c s]
  obtain t where "email_rule None (c # s) = c # t \<or> email_rule None (c # s) = 91 # t"
    by (auto simp: min_len_email js_def email_rule_def)
  moreover have "\<not> is_dsep 91" by (simp add: class_defs)
  moreover from assms Cons have "\<not> is_dsep c" by simp
  ultimately show ?thesis using Cons by auto
qed

lemma phone_rule_run:
  assumes "list_all is_sep run" and "5 \<le> length run" and "length run \<le> 15"
    and "a = [] \<or> \<not> is_dsep (last a)"
    and "\<And>x. a = x @ [41] \<Longrightarrow> \<not> (\<exists>u d1 d2. x = u @ [d1, d2] \<and> is_digit d1 \<and> is_digit d2)"
    and "length run = 15 \<or> b = [] \<or> \<not> is_dsep (hd b)"
  shows "phone_rule (a @ run @ b) = phone_rule a @ js ''[phone]'' @ phone_rule b"
proof (cases "a = []")
  case True
  then show ?thesis
    using phone_pass_run [OF assms(1-3) assms(6), of "js ''[phone]''" None]
    by (simp add: phone_rule_def first_match_Nil min_len_phone)
next
  case False
  then obtain x c where a: "a = x @ [c]" by (metis rev_exhaust)
  with assms(4) have c: "\<not> is_dsep c" by simp
  have g: "c = 41 \<longrightarrow> \<not> (\<exists>u d1 d2. x = u @ [d1, d2] \<and> is_digit d1 \<and> is_digit d2)"
    using assms(5) [of x] a by simp
  from assms(2) obtain r0 r1 where run: "run = r0 # r1" by (cases run) auto
  with assms(1) have "is_sep r0" by simp
  then have "\<not> is_digit r0" by (auto simp: class_defs)
  with run have "run \<noteq> []" "\<not> is_digit (hd run)" by simp_all
  then have z: "run @ b = [] \<or> \<not> is_digit (hd (run @ b))" by simp
  have "replace_all phone_re (js ''[phone]'') None (x @ c # run @ b)
      = replace_all phone_re (js ''[phone]'') None x
        @ c # replace_all phone_re (js ''[phone]'') (Some c) (run @ b)"
    by (rule phone_rule_passes [OF c z g])
  moreover have "replace_all phone_re (js ''[phone]'') (Some c) (run @ b)
      = js ''[phone]'' @ replace_all phone_re (js ''[phone]'') None b"
    by (rule phone_pass_run [OF assms(1-3) assms(6)])
  moreover have "replace_all phone_re (js ''[phone]'') None (x @ c # [])
      = replace_all phone_re (js ''[phone]'') None x
        @ c # replace_all phone_re (js ''[phone]'') (Some c) []"
    by (rule phone_rule_passes [OF c _ g]) simp
  ultimately show ?thesis
    using a by (simp add: phone_rule_def first_match_Nil min_len_phone)
qed


section \<open>The classifier\<close>

lemma starts_with_iff: "starts_with k s \<longleftrightarrow> (\<exists>post. s = k @ post)"
  by (induction k s rule: starts_with.induct) auto

lemma includes_str_iff: "includes_str s k \<longleftrightarrow> (\<exists>pre post. s = pre @ k @ post)"
proof (induction s)
  case Nil
  then show ?case by (auto simp: starts_with_iff)
next
  case (Cons c s)
  show ?case
  proof
    assume "includes_str (c # s) k"
    then consider "starts_with k (c # s)" | "includes_str s k" by auto
    then show "\<exists>pre post. c # s = pre @ k @ post"
    proof cases
      case 1
      then obtain post where "c # s = k @ post" by (auto simp: starts_with_iff)
      then have "c # s = [] @ k @ post" by simp
      then show ?thesis by blast
    next
      case 2
      then obtain pre post where "s = pre @ k @ post" using Cons.IH by blast
      then have "c # s = (c # pre) @ k @ post" by simp
      then show ?thesis by blast
    qed
  next
    assume "\<exists>pre post. c # s = pre @ k @ post"
    then obtain pre post where eq: "c # s = pre @ k @ post" by blast
    show "includes_str (c # s) k"
    proof (cases pre)
      case Nil
      with eq have "starts_with k (c # s)" by (auto simp: starts_with_iff)
      then show ?thesis by simp
    next
      case (Cons a pre')
      with eq have "s = pre' @ k @ post" by simp
      then have "includes_str s k" using Cons.IH by blast
      then show ?thesis by simp
    qed
  qed
qed

lemma array_some_iff: "array_some f xs \<longleftrightarrow> (\<exists>x \<in> set xs. f x)"
  by (induction xs) auto

text \<open>
  C1. The handler takes the sensitive branch for a redacted text \<open>t\<close> exactly when the
  lower-cased \<open>t\<close> contains one of the seven keywords as a substring; otherwise it takes
  the normal branch.
\<close>

theorem isSensitive_iff_keyword:
  "isSensitive t \<longleftrightarrow>
     (\<exists>k \<in> {js ''refund'', js ''charge'', js ''billing'', js ''cancel subscription'',
             js ''delete account'', js ''terminate'', js ''legal''}.
        \<exists>pre post. toLowerCase t = pre @ k @ post)"
  by (simp add: isSensitive_def sensitiveKeywords_def array_some_iff includes_str_iff Let_def)

theorem isSensitive_iff_keyword_witness:
  "isSensitive (js ''I want a Refund'')"
proof -
  have "toLowerCase (js ''I want a Refund'') = js ''i want a '' @ js ''refund'' @ []"
    by (simp add: toLowerCase_def js_def lower_unit_def)
  then show ?thesis
    using isSensitive_iff_keyword [of "js ''I want a Refund''"] by blast
qed

section \<open>The redaction\<close>

lemma redact_text_Nil: "redact_text [] = []"
  by (simp add: redact_text_def first_match_Nil min_len_email min_len_phone)

lemma redactPII_Str: "redactPII (JStr t) = Inr (JStr (redact_text t))"
  by (cases t) (simp_all add: redactPII_def redact_text_Nil)

text \<open>
  An address directly followed by digits is not a match of the email pattern, since no
  word boundary closes it. The first pass replaces the digits; after that a bracket
  follows the address, the boundary is there, and a second pass replaces the address.
\<close>

theorem redact_twice_counterexample:
  "redactPII (JStr (js ''a@b.cc12345'')) = Inr (JStr (js ''a@b.cc[phone]''))
   \<and> redactPII (JStr (js ''a@b.cc[phone]'')) = Inr (JStr (js ''[email][phone]''))"
  by (simp add: redactPII_def match_defs class_defs)

lemma redact_example: "redact_text (js ''a@b.cc 12345'') = js ''[email][phone]''"
  by (simp add: match_defs class_defs)

text \<open>
  C3, as amended. On a string \<open>redactPII\<close> never fails, and redacting the result again
  gives the same result exactly when the email pattern matches nowhere in it. (The
  phone pattern never matches in a redacted text.)
\<close>

theorem redact_twice_same_iff:
  "redactPII (JStr t) = Inr (JStr (redact_text t))
   \<and> (redactPII (JStr (redact_text t)) = Inr (JStr (redact_text t))
        \<longleftrightarrow> match_free email_re None (redact_text t))"
proof -
  have "redactPII (JStr (redact_text t)) = Inr (JStr (redact_text t))
      \<longleftrightarrow> match_free email_re None (redact_text t)"
  proof
    assume mf: "match_free email_re None (redact_text t)"
    have "match_free phone_re None (redact_text t)"
      unfolding redact_text_def by (rule phone_pass_clean)
    with mf have "redact_text (redact_text t) = redact_text t"
      by (simp add: redact_text_def [of "redact_text t"] replace_all_match_free)
    then show "redactPII (JStr (redact_text t)) = Inr (JStr (redact_text t))"
      by (simp add: redactPII_Str)
  next
    assume same: "redactPII (JStr (redact_text t)) = Inr (JStr (redact_text t))"
    show "match_free email_re None (redact_text t)"
    proof (rule ccontr)
      assume "\<not> match_free email_re None (redact_text t)"
      then have "count_list (replace_all email_re (js ''[email]'') None (redact_text t)) 64
          < count_list (redact_text t) 64"
        using count_email_pass [of "js ''[email]''" None "redact_text t"] by (simp add: js_def)
      moreover have "count_list (redact_text (redact_text t)) 64
          = count_list (replace_all email_re (js ''[email]'') None (redact_text t)) 64"
        unfolding redact_text_def [of "redact_text t"]
        by (rule count_replace_all_rejected [OF no_boundary_phone])
           (simp_all add: phone_re_def class_defs js_def)
      ultimately have "redact_text (redact_text t) \<noteq> redact_text t" by auto
      with same show False by (simp add: redactPII_Str)
    qed
  qed
  then show ?thesis by (simp add: redactPII_Str)
qed

theorem redact_twice_same_iff_witness:
  "redactPII (JStr (js ''a@b.cc 12345'')) = Inr (JStr (js ''[email][phone]''))
   \<and> redactPII (JStr (js ''[email][phone]'')) = Inr (JStr (js ''[email][phone]''))"
proof -
  have e: "match_free email_re None (redact_text (js ''a@b.cc 12345''))"
    unfolding redact_example by (simp add: match_defs class_defs)
  from redact_twice_same_iff [of "js ''a@b.cc 12345''"] e show ?thesis
    unfolding redact_example by simp
qed





text \<open>
  Directly behind an \<open>@\<close> an address is redacted when the pattern cannot match from
  that \<open>@\<close> on, and is cut by the earlier match when it can.
\<close>

lemma address_behind_at_example:
  "redactPII (JStr (js ''x@'' @ js ''a.bb@c.dd'')) = Inr (JStr (js ''[email]@c.dd''))
   \<and> redactPII (JStr (js ''x@'' @ js ''a@b.cc'')) = Inr (JStr (js ''x@[email]''))"
  by (simp add: redactPII_def match_defs class_defs)




lemma email_rule_without_at: "64 \<notin> set s \<Longrightarrow> email_rule p s = s"
  unfolding email_rule_def by (rule email_pass_without_at)


text \<open>
  In a text without \<open>@\<close> no separator run is part of a match of the email pattern.
\<close>

lemma separator_run_without_at:
  assumes "list_all is_sep run" and "64 \<notin> set pre" and "64 \<notin> set post"
  shows "email_rule None (pre @ run @ post) = email_rule None pre @ run @ email_rule None post"
proof -
  have "64 \<notin> set run"
    using assms(1) by (auto simp: list_all_iff is_sep_def is_space_def)
  with assms(2,3) show ?thesis by (simp add: email_rule_without_at)
qed

text \<open>
  When digits stand in front of the run, the match begins at the digits and stops after
  fifteen code units of the last class: of five blanks behind twenty digits the first
  two are consumed with the digits and three are left.
\<close>

theorem run_after_digits_counterexample:
  "redactPII (JStr (js ''12345678901234567890'' @ js ''     '' @ js ''b''))
     = Inr (JStr (js ''[phone]'' @ js ''   '' @ js ''b''))"
  by (simp add: redactPII_def match_defs class_defs)

text \<open>
  C10, as amended. Let the text be \<open>pre\<close>, a run and \<open>post\<close>, where the run is 5 to
  15 code units that are each a hyphen, a dot or white space. The run is not part of a
  match of the email pattern: the email rule leaves it in place and rewrites \<open>pre\<close>
  and \<open>post\<close> as it does on their own. No match of the phone pattern comes over from
  \<open>pre\<close>: \<open>pre\<close> is empty or ends with a code unit that is neither a digit nor a
  hyphen, a dot or white space, and it does not end with two digits and a closing
  parenthesis. And the match ends with the run: the run has the full 15 code units, or
  \<open>post\<close> is empty or begins with a code unit that is neither a digit nor a hyphen,
  a dot or white space. Then the run, which holds no digit, is replaced by \<open>[phone]\<close>,
  and \<open>pre\<close> and \<open>post\<close> are redacted on their own.
\<close>

theorem delimited_separator_run_redacted:
  assumes "list_all is_sep run" and "5 \<le> length run" and "length run \<le> 15"
    and "email_rule None (pre @ run @ post) = email_rule None pre @ run @ email_rule None post"
    and "pre = [] \<or> \<not> is_dsep (last pre)" and "\<not> ends_digits_rparen pre"
    and "length run = 15 \<or> post = [] \<or> \<not> is_dsep (hd post)"
  shows "redactPII (JStr (pre @ run @ post))
       = Inr (JStr (redact_text pre @ js ''[phone]'' @ redact_text post))"
proof -
  have before: "email_rule None pre = [] \<or> \<not> is_dsep (last (email_rule None pre))"
  proof (cases "email_rule None pre = []")
    case False
    then obtain x b where xb: "email_rule None pre = x @ [b]" by (metis rev_exhaust)
    from email_rule_last [OF assms(5) xb] xb show ?thesis by simp
  qed simp
  have behind: "length run = 15 \<or> email_rule None post = []
      \<or> \<not> is_dsep (hd (email_rule None post))"
    using assms(7) email_rule_first [of post] by blast
  have "phone_rule (email_rule None pre @ run @ email_rule None post)
      = phone_rule (email_rule None pre) @ js ''[phone]'' @ phone_rule (email_rule None post)"
    by (rule phone_rule_run [OF assms(1-3) before email_rule_digits_rparen [OF assms(6)] behind])
  with assms(4) show ?thesis by (simp add: redactPII_Str redact_text_rules)
qed

theorem delimited_separator_run_redacted_witness:
  "redactPII (JStr (js ''a@b.cc ('' @ js ''     '' @ js ''x''))
     = Inr (JStr (js ''[email] ([phone]x''))"
proof -
  have a: "redact_text (js ''a@b.cc ('') = js ''[email] (''" by (simp add: match_defs class_defs)
  have b: "redact_text (js ''x'') = js ''x''" by (simp add: match_defs class_defs)
  have "redactPII (JStr (js ''a@b.cc ('' @ js ''     '' @ js ''x''))
      = Inr (JStr (redact_text (js ''a@b.cc ('') @ js ''[phone]'' @ redact_text (js ''x'')))"
    by (rule delimited_separator_run_redacted)
       (simp_all add: email_rule_def ends_digits_rparen_def match_defs class_defs)
  then show ?thesis unfolding a b by (simp add: js_def)
qed


section \<open>The drafter and the webhook handler\<close>

lemmas handler_defs = handler_def handler_try_def postReplyToZendesk_def verifySecret_def
  unset_def ticketId_of_def rawComment_of_def js_or_def redactPII_def error_json_def
  flagged_json_def Let_def

lemmas example_defs = example_env_def example_request_def example_reply_def

lemma redact_refund: "redact_text (js ''refund me'') = js ''refund me''"
  by (simp add: match_defs class_defs)

lemma sensitive_refund: "isSensitive (js ''refund me'')"
  by (simp add: isSensitive_def sensitiveKeywords_def toLowerCase_def lower_unit_def js_def)

lemma redact_hello: "redact_text (js ''Hello'') = js ''Hello''"
  by (simp add: match_defs class_defs)

lemma normal_hello: "\<not> isSensitive (js ''Hello'')"
  by (simp add: isSensitive_def sensitiveKeywords_def toLowerCase_def lower_unit_def js_def)

lemma handler_refund:
  "handler example_env (example_request (js ''refund me'')) =
     (\<lparr>status = 200, json = flagged_json\<rparr>,
      [ZendeskPost (JNum 42) (humanNote_of (js ''refund me'')) False])"
  using redact_refund sensitive_refund
  by (simp add: handler_defs example_defs js_def)

lemma generate_hello: "generateReply example_env p \<lparr>systemBrief = None\<rparr> = Inr (js ''Hello!'')"
  by (simp add: generateReply_def generateReply_try_def example_defs reply_of_def nullish_def
        trim_def js_def is_space_def)

lemma handler_hello:
  "handler example_env (example_request (js ''Hello'')) =
     (\<lparr>status = 200,
       json = JObj [(js ''ok'', JBool True), (js ''ticketId'', JNum 42),
                    (js ''replyPreview'', JStr (take 600 (finalBody_of (js ''Hello!''))))]\<rparr>,
      [DrafterCall (ticketPromptText_of (JNum 42) (js ''Hello'')),
       ZendeskPost (JNum 42) (finalBody_of (js ''Hello!'')) False])"
  using redact_hello normal_hello generate_hello
  by (simp add: handler_defs example_defs js_def)


text \<open>
  C2. When the redacted text of an event is sensitive, \<open>generateReply\<close> is not among
  the calls of the handler, whatever the environment holds (the shared secret, the
  \<open>AUTO_POST_HUMAN_FLAG\<close> toggle, the answers of the services).
\<close>

theorem sensitive_never_drafts:
  assumes "redactPII (rawComment_of (req_body req)) = Inr (JStr t)" and "isSensitive t"
  shows "DrafterCall prompt \<notin> set (snd (handler e req))"
  using assms
  by (simp add: handler_def handler_try_def postReplyToZendesk_def Let_def
           split: sum.splits prod.splits)

theorem sensitive_never_drafts_witness:
  "redactPII (rawComment_of (req_body (example_request (js ''refund me'')))) = Inr (JStr (js ''refund me''))
   \<and> isSensitive (js ''refund me'')
   \<and> (\<forall>prompt. DrafterCall prompt \<notin> set (snd (handler example_env (example_request (js ''refund me'')))))"
proof -
  have r: "redactPII (rawComment_of (req_body (example_request (js ''refund me'')))) = Inr (JStr (js ''refund me''))"
    using redact_refund by (simp add: handler_defs example_defs js_def)
  show ?thesis
    using r sensitive_refund sensitive_never_drafts [OF r sensitive_refund, of _ example_env]
    by blast
qed

text \<open>
  C8. Every PUT the handler sends to the ticketing system carries \<open>public: false\<close>.
\<close>

theorem posts_are_internal:
  "ZendeskPost ticketId bodyHtml isPublic \<in> set (snd (handler e req)) \<Longrightarrow> isPublic = False"
  by (auto simp: handler_def handler_try_def postReplyToZendesk_def Let_def
           split: sum.splits prod.splits jsval.splits if_splits)

theorem posts_are_internal_witness:
  "ZendeskPost (JNum 42) (finalBody_of (js ''Hello!'')) False
     \<in> set (snd (handler example_env (example_request (js ''Hello''))))"
proof -
  have m: "ZendeskPost (JNum 42) (finalBody_of (js ''Hello!'')) False
          \<in> set (snd (handler example_env (example_request (js ''Hello''))))"
    by (simp add: handler_hello)
  from posts_are_internal [OF m] m show ?thesis by simp
qed

lemma ticketId_falsy:
  assumes "\<not> truthy (opt_get (opt_get payload (js ''ticket'')) (js ''id''))"
    and "\<not> truthy (opt_get payload (js ''ticket_id''))"
    and "\<not> truthy (opt_get payload (js ''id''))"
    and "\<not> truthy (opt_get (opt_get payload (js ''object'')) (js ''id''))"
  shows "\<not> truthy (ticketId_of payload)"
  using assms by (simp add: ticketId_of_def js_or_def)

lemma handler_rejects_falsy_id:
  assumes "verifySecret e req" and "\<not> truthy (ticketId_of (req_body req))"
  shows "handler e req =
    (\<lparr>status = 400,
      json = JObj [(js ''ok'', JBool False), (js ''error'', JStr (js ''No ticket id in payload''))]\<rparr>,
     [])"
  using assms by (simp add: handler_def handler_try_def Let_def error_json_def)

lemma unauthorized_rejected:
  assumes "\<not> verifySecret e req"
  shows "handler e req =
    (\<lparr>status = 401,
      json = JObj [(js ''ok'', JBool False), (js ''error'', JStr (js ''Invalid shared secret''))]\<rparr>,
     [])"
  using assms by (simp add: handler_def handler_try_def Let_def error_json_def)

lemma falsy_id_no_effects:
  assumes "\<not> truthy (ticketId_of (req_body req))"
  shows "snd (handler e req) = []"
  using handler_rejects_falsy_id [OF _ assms, of e] unauthorized_rejected [of e req]
  by (cases "verifySecret e req") simp_all

lemma verifySecret_body: "verifySecret e (req\<lparr>req_body := b\<rparr>) = verifySecret e req"
  by (simp add: verifySecret_def)

lemma ticketId_empty_event: "\<not> truthy (ticketId_of (JObj []))"
  by (simp add: ticketId_of_def js_or_def)

lemma falsy_id_as_empty_event:
  assumes "\<not> truthy (ticketId_of (req_body req))"
  shows "handler e req = handler e (req\<lparr>req_body := JObj []\<rparr>)"
proof (cases "verifySecret e req")
  case True
  then have v: "verifySecret e (req\<lparr>req_body := JObj []\<rparr>)" by (simp add: verifySecret_body)
  have f0: "\<not> truthy (ticketId_of (req_body (req\<lparr>req_body := JObj []\<rparr>)))"
    by (simp add: ticketId_empty_event)
  from handler_rejects_falsy_id [OF True assms] handler_rejects_falsy_id [OF v f0]
  show ?thesis by simp
next
  case False
  then have v: "\<not> verifySecret e (req\<lparr>req_body := JObj []\<rparr>)" by (simp add: verifySecret_body)
  from unauthorized_rejected [OF False] unauthorized_rejected [OF v] show ?thesis by simp
qed


text \<open>
  C4. When none of the four identifier paths of the event yields a truthy value, the
  handler calls neither the drafter nor the ticketing system, whatever the request and
  the environment. A request that the shared-secret check at the boundary admits, an
  inbound event of the pipeline, is answered 400 with
  \<open>{ok: false, error: "No ticket id in payload"}\<close>; one that the check refuses is
  answered 401 with \<open>Invalid shared secret\<close> before the event is looked at.
\<close>

theorem no_ticket_id_rejected:
  assumes "\<not> truthy (opt_get (opt_get (req_body req) (js ''ticket'')) (js ''id''))"
    and "\<not> truthy (opt_get (req_body req) (js ''ticket_id''))"
    and "\<not> truthy (opt_get (req_body req) (js ''id''))"
    and "\<not> truthy (opt_get (opt_get (req_body req) (js ''object'')) (js ''id''))"
  shows "snd (handler e req) = []
    \<and> (verifySecret e req \<longrightarrow> handler e req =
        (\<lparr>status = 400,
          json = JObj [(js ''ok'', JBool False), (js ''error'', JStr (js ''No ticket id in payload''))]\<rparr>,
         []))
    \<and> (\<not> verifySecret e req \<longrightarrow> handler e req =
        (\<lparr>status = 401,
          json = JObj [(js ''ok'', JBool False), (js ''error'', JStr (js ''Invalid shared secret''))]\<rparr>,
         []))"
proof -
  have f: "\<not> truthy (ticketId_of (req_body req))"
    using assms by (rule ticketId_falsy)
  show ?thesis
    using falsy_id_no_effects [OF f, of e] handler_rejects_falsy_id [OF _ f, of e]
      unauthorized_rejected [of e req]
    by blast
qed

theorem no_ticket_id_rejected_witness:
  "handler example_env \<lparr>x_webhook_secret = None,
       req_body = JObj [(js ''comment'', JObj [(js ''body'', JStr (js ''Hello''))])]\<rparr> =
    (\<lparr>status = 400,
      json = JObj [(js ''ok'', JBool False), (js ''error'', JStr (js ''No ticket id in payload''))]\<rparr>,
     [])"
proof -
  let ?req = "\<lparr>x_webhook_secret = None,
       req_body = JObj [(js ''comment'', JObj [(js ''body'', JStr (js ''Hello''))])]\<rparr>"
  have v: "verifySecret example_env ?req"
    by (simp add: verifySecret_def unset_def example_defs)
  have h1: "\<not> truthy (opt_get (opt_get (req_body ?req) (js ''ticket'')) (js ''id''))"
    by (simp add: js_def)
  have h2: "\<not> truthy (opt_get (req_body ?req) (js ''ticket_id''))"
    by (simp add: js_def)
  have h3: "\<not> truthy (opt_get (req_body ?req) (js ''id''))"
    by (simp add: js_def)
  have h4: "\<not> truthy (opt_get (opt_get (req_body ?req) (js ''object'')) (js ''id''))"
    by (simp add: js_def)
  from no_ticket_id_rejected [OF h1 h2 h3 h4, of example_env] v show ?thesis by blast
qed


text \<open>
  C9. An event whose identifier paths yield only the number 0, the empty string or
  nothing is answered exactly as the same request with the empty event \<open>{}\<close> is,
  whatever the request and the environment; no call is made; and behind the
  shared-secret check the answer is 400 with \<open>No ticket id in payload\<close>.
\<close>

theorem zero_or_empty_id_rejected:
  assumes "opt_get (opt_get (req_body req) (js ''ticket'')) (js ''id'') \<in> {JUndefined, JNum 0, JStr []}"
    and "opt_get (req_body req) (js ''ticket_id'') \<in> {JUndefined, JNum 0, JStr []}"
    and "opt_get (req_body req) (js ''id'') \<in> {JUndefined, JNum 0, JStr []}"
    and "opt_get (opt_get (req_body req) (js ''object'')) (js ''id'') \<in> {JUndefined, JNum 0, JStr []}"
  shows "handler e req = handler e (req\<lparr>req_body := JObj []\<rparr>)
    \<and> snd (handler e req) = []
    \<and> (verifySecret e req \<longrightarrow> handler e req =
        (\<lparr>status = 400,
          json = JObj [(js ''ok'', JBool False), (js ''error'', JStr (js ''No ticket id in payload''))]\<rparr>,
         []))"
proof -
  have f: "\<not> truthy (ticketId_of (req_body req))"
    using assms by (intro ticketId_falsy) auto
  show ?thesis
    using falsy_id_as_empty_event [OF f, of e] falsy_id_no_effects [OF f, of e]
      handler_rejects_falsy_id [OF _ f, of e]
    by blast
qed

theorem zero_or_empty_id_rejected_witness:
  "handler example_env \<lparr>x_webhook_secret = None,
       req_body = JObj [(js ''ticket'', JObj [(js ''id'', JNum 0)]), (js ''ticket_id'', JStr [])]\<rparr> =
    (\<lparr>status = 400,
      json = JObj [(js ''ok'', JBool False), (js ''error'', JStr (js ''No ticket id in payload''))]\<rparr>,
     [])
   \<and> handler example_env \<lparr>x_webhook_secret = None,
       req_body = JObj [(js ''ticket'', JObj [(js ''id'', JNum 0)]), (js ''ticket_id'', JStr [])]\<rparr> =
     handler example_env (\<lparr>x_webhook_secret = None,
       req_body = JObj [(js ''ticket'', JObj [(js ''id'', JNum 0)]), (js ''ticket_id'', JStr [])]\<rparr>
         \<lparr>req_body := JObj []\<rparr>)"
proof -
  let ?req = "\<lparr>x_webhook_secret = None,
       req_body = JObj [(js ''ticket'', JObj [(js ''id'', JNum 0)]), (js ''ticket_id'', JStr [])]\<rparr>"
  have v: "verifySecret example_env ?req"
    by (simp add: verifySecret_def unset_def example_defs)
  have h2: "opt_get (opt_get (req_body ?req) (js ''ticket'')) (js ''id'') \<in> {JUndefined, JNum 0, JStr []}"
    by (simp add: js_def)
  have h3: "opt_get (req_body ?req) (js ''ticket_id'') \<in> {JUndefined, JNum 0, JStr []}"
    by (simp add: js_def)
  have h4: "opt_get (req_body ?req) (js ''id'') \<in> {JUndefined, JNum 0, JStr []}"
    by (simp add: js_def)
  have h5: "opt_get (opt_get (req_body ?req) (js ''object'')) (js ''id'') \<in> {JUndefined, JNum 0, JStr []}"
    by (simp add: js_def)
  from zero_or_empty_id_rejected [OF h2 h3 h4 h5, of example_env] v show ?thesis by blast
qed


text \<open>
  A sensitive event is answered with status 200 and the note only: the acknowledgment
  has neither \<open>ticketId\<close> nor \<open>replyPreview\<close>.
\<close>

theorem flagged_success_counterexample:
  "fst (handler example_env (example_request (js ''refund me''))) =
     \<lparr>status = 200,
      json = JObj [(js ''ok'', JBool True), (js ''note'', JStr (js ''Flagged for human review''))]\<rparr>
   \<and> opt_get (json (fst (handler example_env (example_request (js ''refund me''))))) (js ''ticketId'')
       = JUndefined
   \<and> opt_get (json (fst (handler example_env (example_request (js ''refund me''))))) (js ''replyPreview'')
       = JUndefined"
  by (simp only: handler_refund) (simp add: flagged_json_def js_def)

text \<open>
  C7, as amended. A response with status 200 is one of two: on the sensitive branch it is
  \<open>{ok: true, note: "Flagged for human review"}\<close>; on the normal branch it holds the
  ticket identifier and, as \<open>replyPreview\<close>, the first 600 code units of the body
  that was posted as an internal note.
\<close>

theorem success_response_shape:
  assumes "handler e req = (r, fx)" and "status r = 200"
  shows "(\<exists>t. redactPII (rawComment_of (req_body req)) = Inr (JStr t) \<and> isSensitive t
            \<and> json r = JObj [(js ''ok'', JBool True),
                              (js ''note'', JStr (js ''Flagged for human review''))])
       \<or> (\<exists>t posted. redactPII (rawComment_of (req_body req)) = Inr (JStr t) \<and> \<not> isSensitive t
            \<and> ZendeskPost (ticketId_of (req_body req)) posted False \<in> set fx
            \<and> json r = JObj [(js ''ok'', JBool True),
                              (js ''ticketId'', ticketId_of (req_body req)),
                              (js ''replyPreview'', JStr (take 600 posted))])"
  using assms
  by (auto simp: handler_def handler_try_def postReplyToZendesk_def Let_def flagged_json_def
           split: sum.splits prod.splits jsval.splits if_splits)

theorem success_response_shape_witness:
  "handler example_env (example_request (js ''Hello'')) =
     (\<lparr>status = 200,
       json = JObj [(js ''ok'', JBool True), (js ''ticketId'', JNum 42),
                    (js ''replyPreview'', JStr (take 600 (finalBody_of (js ''Hello!''))))]\<rparr>,
      [DrafterCall (ticketPromptText_of (JNum 42) (js ''Hello'')),
       ZendeskPost (JNum 42) (finalBody_of (js ''Hello!'')) False])
   \<and> (\<exists>t posted.
        redactPII (rawComment_of (req_body (example_request (js ''Hello'')))) = Inr (JStr t)
        \<and> \<not> isSensitive t
        \<and> ZendeskPost (ticketId_of (req_body (example_request (js ''Hello'')))) posted False
            \<in> set [DrafterCall (ticketPromptText_of (JNum 42) (js ''Hello'')),
                    ZendeskPost (JNum 42) (finalBody_of (js ''Hello!'')) False]
        \<and> JObj [(js ''ok'', JBool True), (js ''ticketId'', JNum 42),
                    (js ''replyPreview'', JStr (take 600 (finalBody_of (js ''Hello!''))))]
           = JObj [(js ''ok'', JBool True),
                   (js ''ticketId'', ticketId_of (req_body (example_request (js ''Hello'')))),
                   (js ''replyPreview'', JStr (take 600 posted))])"
proof -
  have "\<not> (\<exists>t. redactPII (rawComment_of (req_body (example_request (js ''Hello'')))) = Inr (JStr t)
            \<and> isSensitive t)"
    using redact_hello normal_hello by (simp add: handler_defs example_defs js_def)
  then show ?thesis
    using success_response_shape [OF handler_hello] handler_hello by auto
qed


text \<open>
  When the service answers with a number where the text should be, \<open>trim\<close> is not a
  function of it: the TypeError is caught and the result is the error string, neither
  the apology nor a trimmed text.
\<close>

theorem numeric_text_counterexample:
  "gemini_post numeric_env (js ''key'') (build_prompt \<lparr>systemBrief = None\<rparr> (js ''Hello''))
     = Inr numeric_reply
   \<and> reply_of numeric_reply = JNum 5
   \<and> generateReply numeric_env (js ''Hello'') \<lparr>systemBrief = None\<rparr> = Inr error_fallback
   \<and> error_fallback \<noteq> reply_fallback"
  by (simp add: generateReply_def generateReply_try_def numeric_env_def numeric_reply_def
        example_defs reply_of_def nullish_def error_fallback_def reply_fallback_def js_def)

text \<open>
  C5, as amended. \<open>generateReply\<close> always returns a string. It is the error string when
  the API key is missing or empty, when the service call fails, when the service answers
  without data, and when the value at \<open>candidates[0].content.parts[0].text\<close> is truthy
  but not a string; the apology when that value is missing, null or otherwise falsy (the
  empty string too); and the trimmed text when it is a string that is not empty.
\<close>

theorem generateReply_outcomes:
  "(\<exists>s. generateReply e p os = Inr s)
   \<and> (unset (GEMINI_API_KEY e) \<longrightarrow> generateReply e p os = Inr error_fallback)
   \<and> (GEMINI_API_KEY e = Some key \<and> key \<noteq> [] \<longrightarrow>
        (gemini_post e key (build_prompt os p) = Inl err
           \<longrightarrow> generateReply e p os = Inr error_fallback)
      \<and> (gemini_post e key (build_prompt os p) = Inr data \<longrightarrow>
           (\<not> truthy (reply_of data) \<and> data \<noteq> JUndefined
              \<longrightarrow> generateReply e p os = Inr reply_fallback)
         \<and> (reply_of data = JStr r \<and> r \<noteq> []
              \<longrightarrow> generateReply e p os = Inr (trim r))
         \<and> ((truthy (reply_of data) \<and> (\<forall>r'. reply_of data \<noteq> JStr r')) \<or> data = JUndefined
              \<longrightarrow> generateReply e p os = Inr error_fallback)))"
  by (auto simp: generateReply_def generateReply_try_def unset_def Let_def reply_of_def nullish_def
           split: sum.splits option.splits jsval.splits)

theorem generateReply_outcomes_witness:
  "generateReply example_env (js ''Hello'') \<lparr>systemBrief = None\<rparr> = Inr (trim (js '' Hello! ''))
   \<and> generateReply failing_env (js ''Hello'') \<lparr>systemBrief = None\<rparr> = Inr error_fallback
   \<and> generateReply shapeless_env (js ''Hello'') \<lparr>systemBrief = None\<rparr> = Inr reply_fallback
   \<and> generateReply numeric_env (js ''Hello'') \<lparr>systemBrief = None\<rparr> = Inr error_fallback
   \<and> generateReply (example_env\<lparr>GEMINI_API_KEY := None\<rparr>) (js ''Hello'') \<lparr>systemBrief = None\<rparr>
       = Inr error_fallback"
proof -
  have a: "generateReply example_env (js ''Hello'') \<lparr>systemBrief = None\<rparr> = Inr (trim (js '' Hello! ''))"
    using generateReply_outcomes [of example_env "js ''Hello''" "\<lparr>systemBrief = None\<rparr>"
        "js ''key''" AxiosError example_reply "js '' Hello! ''"]
    by (simp add: example_defs reply_of_def nullish_def js_def)
  have b: "generateReply failing_env (js ''Hello'') \<lparr>systemBrief = None\<rparr> = Inr error_fallback"
    using generateReply_outcomes [of failing_env "js ''Hello''" "\<lparr>systemBrief = None\<rparr>"
        "js ''key''" AxiosError JNull "[]"]
    by (simp add: failing_env_def example_defs js_def)
  have c: "generateReply shapeless_env (js ''Hello'') \<lparr>systemBrief = None\<rparr> = Inr reply_fallback"
    using generateReply_outcomes [of shapeless_env "js ''Hello''" "\<lparr>systemBrief = None\<rparr>"
        "js ''key''" AxiosError "JObj []" "[]"]
    by (simp add: shapeless_env_def example_defs reply_of_def nullish_def js_def)
  have d: "generateReply numeric_env (js ''Hello'') \<lparr>systemBrief = None\<rparr> = Inr error_fallback"
    using generateReply_outcomes [of numeric_env "js ''Hello''" "\<lparr>systemBrief = None\<rparr>"
        "js ''key''" AxiosError numeric_reply "[]"]
    by (simp add: numeric_env_def numeric_reply_def example_defs reply_of_def nullish_def js_def)
  have e: "generateReply (example_env\<lparr>GEMINI_API_KEY := None\<rparr>) (js ''Hello'') \<lparr>systemBrief = None\<rparr>
       = Inr error_fallback"
    using generateReply_outcomes [of "example_env\<lparr>GEMINI_API_KEY := None\<rparr>" "js ''Hello''"
        "\<lparr>systemBrief = None\<rparr>" "[]" AxiosError JNull "[]"]
    by (simp add: unset_def)
  show ?thesis using a b c d e by simp
qed

end
